theory Spec2Isabelle
  imports Main "HOL-Library.AList" "HOL-Library.Char_ord" "HOL-Library.List_Lexorder"
begin

section \<open>Signals and full-adder networks\<close>

text \<open>
  The generator names every wire by a Python string.  The families of names that
  \<^verbatim>\<open>final_generator.py\<close> ever builds are kept apart by a datatype; each constructor
  stands for one format string of the source:
  \<^item> \<open>X i\<close> is \<^verbatim>\<open>f"x[{i}]"\<close>, a primary input;
  \<^item> \<open>Lit b\<close> is the literal \<^verbatim>\<open>"1'b0"\<close> or \<^verbatim>\<open>"1'b1"\<close>;
  \<^item> \<open>K j\<close> is \<^verbatim>\<open>f"K{j}"\<close>, a named constant-1 bias bit;
  \<^item> \<open>SumW t col i\<close> is \<^verbatim>\<open>f"{tag}s_c{col}_{fa_id}"\<close> and \<open>CarW t col i\<close> is
    \<^verbatim>\<open>f"{tag}c_c{col}_{fa_id}"\<close>, the two outputs made by \<^verbatim>\<open>new_wires\<close>, where the
    tag is \<^verbatim>\<open>"raw_"\<close>, \<^verbatim>\<open>""\<close> or \<^verbatim>\<open>"p_"\<close>;
  \<^item> \<open>T i\<close>, \<open>C2 i\<close>, \<open>S2 i\<close>, \<open>Hw i\<close> are \<^verbatim>\<open>f"T{i}"\<close>, \<^verbatim>\<open>f"c2_{i}"\<close>, \<^verbatim>\<open>f"s2_{i}"\<close>,
    \<^verbatim>\<open>f"hw_{i}"\<close> of the baseline comparator.
\<close>

datatype tag = Tag_raw | Tag_none | Tag_p

datatype sig =
    X nat
  | Lit bool
  | K nat
  | SumW tag nat nat
  | CarW tag nat nat
  | T nat
  | C2 nat
  | S2 nat
  | Hw nat

datatype kind = Raw_triple | Triple | Pair

datatype error = AssertionError

type_synonym fa_op = "sig \<times> sig \<times> sig \<times> sig \<times> sig"

type_synonym sched_op = "nat \<times> kind \<times> sig \<times> sig \<times> sig \<times> sig \<times> sig"

type_synonym env = "sig \<Rightarrow> bool"

text \<open>\<^verbatim>\<open>_is_const\<close>: membership in \<^verbatim>\<open>("1'b0", "1'b1")\<close>.\<close>

fun is_const :: "sig \<Rightarrow> bool" where
  "is_const (Lit b) = True"
| "is_const s = False"

text \<open>
  The meaning of a network follows the glossary: a full adder computes
  sum = parity(a,b,c) and carry = majority(a,b,c).  A literal always reads as its own
  value; every other name reads from the environment.  Operations run in list order.
\<close>

definition parity3 :: "bool \<Rightarrow> bool \<Rightarrow> bool \<Rightarrow> bool" where
  "parity3 a b c = ((a \<noteq> b) \<noteq> c)"

definition majority3 :: "bool \<Rightarrow> bool \<Rightarrow> bool \<Rightarrow> bool" where
  "majority3 a b c = ((a \<and> b) \<or> (a \<and> c) \<or> (b \<and> c))"

fun val :: "env \<Rightarrow> sig \<Rightarrow> bool" where
  "val e (Lit b) = b"
| "val e s = e s"

fun fa_step :: "env \<Rightarrow> fa_op \<Rightarrow> env" where
  "fa_step e (a, b, cin, s, k) =
     (e(s := parity3 (val e a) (val e b) (val e cin)))
      (k := majority3 (val e a) (val e b) (val e cin))"

definition run_fas :: "fa_op list \<Rightarrow> env \<Rightarrow> env" where
  "run_fas ops e = foldl fa_step e ops"

fun strip_op :: "sched_op \<Rightarrow> fa_op" where
  "strip_op (col, kd, a, b, cin, s, k) = (a, b, cin, s, k)"

definition popcount :: "nat \<Rightarrow> env \<Rightarrow> nat" where
  "popcount n e = length (filter (\<lambda>i. e (X i)) [0..<n])"

section \<open>Parameters of the folded-bias design\<close>

text \<open>
  \<^verbatim>\<open>math.ceil(math.log2(x))\<close> is computed in double precision by the C library: the
  integer is rounded to a double, its logarithm is rounded again, and the ceiling is taken.
  The result is not the exact ceiling logarithm for every \<open>x\<close>: at \<open>x = 2 ^ 49 + 1\<close> the
  logarithm rounds to \<open>49.0\<close>, and the expression returns 49 where \<open>2 ^ 49 < x\<close>.  The
  model therefore takes the function \<open>lg\<close>, with \<open>lg x\<close> the value of
  \<^verbatim>\<open>math.ceil(math.log2(x))\<close>, as a parameter of every entry point, and the theorems say
  what they need of it.

  \<open>clog2\<close> is the exact ceiling logarithm, the least \<open>w\<close> with \<open>x \<le> 2 ^ w\<close>; it is the
  value of the expression wherever the double computation is exact.
\<close>

fun clog2 :: "nat \<Rightarrow> nat" where
  "clog2 x = (if x \<le> 1 then 0 else Suc (clog2 ((x + 1) div 2)))"

declare clog2.simps [simp del]

definition fb_th :: "nat \<Rightarrow> nat" where
  "fb_th n = (n + 1) div 2"

definition fb_w :: "(nat \<Rightarrow> nat) \<Rightarrow> nat \<Rightarrow> nat" where
  "fb_w lg n = lg (fb_th n)"

text \<open>\<^verbatim>\<open>K = (1 << w) - th\<close> is a Python integer: it is negative when \<open>2 ^ w < th\<close>.\<close>

definition fb_K :: "(nat \<Rightarrow> nat) \<Rightarrow> nat \<Rightarrow> int" where
  "fb_K lg n = 2 ^ fb_w lg n - int (fb_th n)"

text \<open>
  \<^verbatim>\<open>((K >> j) & 1) == 1\<close>, on Python integers: the shift is the floor division by
  \<open>2 ^ j\<close>, also for a negative \<open>K\<close>.
\<close>

definition kbit :: "int \<Rightarrow> nat \<Rightarrow> bool" where
  "kbit k j = ((k div 2 ^ j) mod 2 = 1)"

section \<open>\<^verbatim>\<open>build_folded_bias_netlist\<close>\<close>

record fb_state =
  fa_id :: nat
  fa_ops :: "fa_op list"
  last_cout_wm1 :: "sig option"

text \<open>
  \<^verbatim>\<open>new_wires(col, tag)\<close> of \<^verbatim>\<open>build_folded_bias_netlist\<close>: two fresh names, the counter
  advanced, and the carry remembered when \<^verbatim>\<open>col == w - 1\<close> (an integer comparison, so
  that \<open>w = 0\<close> matches no column).
\<close>

definition fb_new_wires :: "nat \<Rightarrow> nat \<Rightarrow> tag \<Rightarrow> fb_state \<Rightarrow> (sig \<times> sig) \<times> fb_state" where
  "fb_new_wires w col tg st =
     (let s = SumW tg col (fa_id st);
          k = CarW tg col (fa_id st)
      in ((s, k),
          st\<lparr>fa_id := fa_id st + 1,
             last_cout_wm1 := (if int col = int w - 1 then Some k else last_cout_wm1 st)\<rparr>))"

definition fb_append :: "fa_op \<Rightarrow> fb_state \<Rightarrow> fb_state" where
  "fb_append opn st = st\<lparr>fa_ops := fa_ops st @ [opn]\<rparr>"

text \<open>Stage A: the \<^verbatim>\<open>while len(raw) >= 3\<close> loop; returns (raw, col0_sums, col_bits[1], state).\<close>

fun fb_stage_a ::
  "nat \<Rightarrow> sig list \<Rightarrow> sig list \<Rightarrow> sig list \<Rightarrow> fb_state
     \<Rightarrow> sig list \<times> sig list \<times> sig list \<times> fb_state" where
  "fb_stage_a w (a # b # c # raw) sums cars st =
     (let ((s, k), st1) = fb_new_wires w 0 Tag_raw st
      in fb_stage_a w raw (sums @ [s]) (cars @ [k]) (fb_append (a, b, c, s, k) st1))"
| "fb_stage_a w raw sums cars st = (raw, sums, cars, st)"

text \<open>
  The body of \<^verbatim>\<open>fold_column\<close> after \<^verbatim>\<open>acc = queue.popleft()\<close>: the
  \<^verbatim>\<open>while len(queue) >= 2\<close> loop followed by the \<^verbatim>\<open>len(queue) == 1\<close> pair step.
\<close>

fun fb_fold_loop ::
  "nat \<Rightarrow> nat \<Rightarrow> sig \<Rightarrow> sig list \<Rightarrow> sig list \<Rightarrow> fb_state \<Rightarrow> sig \<times> sig list \<times> fb_state" where
  "fb_fold_loop w col acc (b # c # queue) cars st =
     (let ((s, k), st1) = fb_new_wires w col Tag_none st
      in fb_fold_loop w col s queue (cars @ [k]) (fb_append (acc, b, c, s, k) st1))"
| "fb_fold_loop w col acc [b] cars st =
     (let ((s, k), st1) = fb_new_wires w col Tag_p st
      in (s, cars @ [k], fb_append (acc, b, Lit False, s, k) st1))"
| "fb_fold_loop w col acc [] cars st = (acc, cars, st)"

fun fb_fold_column ::
  "nat \<Rightarrow> nat \<Rightarrow> sig list \<Rightarrow> fb_state \<Rightarrow> sig option \<times> sig list \<times> fb_state" where
  "fb_fold_column w col [] st = (None, [], st)"
| "fb_fold_column w col (acc # queue) st =
     (let (r, cars, st1) = fb_fold_loop w col acc queue [] st in (Some r, cars, st1))"

text \<open>
  \<^verbatim>\<open>col_bits\<close> is a dictionary of queues that is only read through
  \<^verbatim>\<open>get(j, deque())\<close> and \<^verbatim>\<open>setdefault(j, deque())\<close>, so a missing key and an empty queue
  are the same: it is a function from columns to token lists.  \<^verbatim>\<open>fold_column\<close> empties
  the queue object it is given.

  The loop \<^verbatim>\<open>for j in range(1, max(1, w - 1))\<close>, counting \<open>j\<close> upwards.
\<close>

definition fb_column_step ::
  "nat \<Rightarrow> int \<Rightarrow> nat \<Rightarrow> (nat \<Rightarrow> sig list) \<times> fb_state \<Rightarrow> (nat \<Rightarrow> sig list) \<times> fb_state" where
  "fb_column_step w kk j cs =
     (let (cb, st) = cs;
          qj = cb j @ (if kbit kk j then [K j] else []);
          (r, cars, st1) = fb_fold_column w j qj st
      in ((cb(j := []))(j + 1 := cb (j + 1) @ cars), st1))"

fun fb_columns ::
  "nat \<Rightarrow> int \<Rightarrow> nat \<Rightarrow> nat \<Rightarrow> (nat \<Rightarrow> sig list) \<times> fb_state \<Rightarrow> (nat \<Rightarrow> sig list) \<times> fb_state" where
  "fb_columns w kk j 0 cs = cs"
| "fb_columns w kk j (Suc cnt) cs = fb_columns w kk (Suc j) cnt (fb_column_step w kk j cs)"

definition fb_core :: "(nat \<Rightarrow> nat) \<Rightarrow> nat \<Rightarrow> fa_op list \<times> sig list \<times> sig" where
  "fb_core lg n =
     (let th = fb_th n; w = fb_w lg n; kk = fb_K lg n;
          const1_names = map K (filter (kbit kk) [0..<w]);
          st0 = \<lparr>fa_id = 0, fa_ops = [], last_cout_wm1 = None\<rparr>;
          (raw, col0_sums, c1, st1) = fb_stage_a w (map X [0..<n]) [] [] st0;
          col0_queue = col0_sums @ raw @ (if kbit kk 0 then [K 0] else []);
          (r0, carries_to_1, st2) = fb_fold_column w 0 col0_queue st1;
          cb = (\<lambda>j. []) (1 := c1 @ carries_to_1);
          (cb3, st3) = fb_columns w kk 1 (max 1 (w - 1) - 1) (cb, st2)
      in if w = 0 then (fa_ops st3, const1_names, Lit False)
         else
           (let q = cb3 (w - 1) @ (if kbit kk (w - 1) then [K (w - 1)] else []);
                st4 = (if length q \<ge> 1 then snd (snd (fb_fold_column w (w - 1) q st3)) else st3)
            in (fa_ops st4, const1_names,
                (case last_cout_wm1 st4 of Some k \<Rightarrow> k | None \<Rightarrow> Lit False))))"

definition build_folded_bias_netlist ::
  "(nat \<Rightarrow> nat) \<Rightarrow> int \<Rightarrow> error + (fa_op list \<times> sig list \<times> sig)" where
  "build_folded_bias_netlist lg n =
     (if n mod 2 = 1 \<and> n \<ge> 3 then Inr (fb_core lg (nat n)) else Inl AssertionError)"

section \<open>\<^verbatim>\<open>csa_macro_schedule_all_columns\<close>\<close>

record wire_state =
  s_fa_id :: nat
  s_ops :: "sched_op list"
  s_wires :: "(sig \<times> sig) list"

definition new_wires :: "nat \<Rightarrow> tag \<Rightarrow> wire_state \<Rightarrow> (sig \<times> sig) \<times> wire_state" where
  "new_wires col tg st =
     (let s = SumW tg col (s_fa_id st);
          k = CarW tg col (s_fa_id st)
      in ((s, k), st\<lparr>s_fa_id := s_fa_id st + 1, s_wires := s_wires st @ [(s, k)]\<rparr>))"

definition ops_append :: "sched_op \<Rightarrow> wire_state \<Rightarrow> wire_state" where
  "ops_append opn st = st\<lparr>s_ops := s_ops st @ [opn]\<rparr>"

fun stage_a ::
  "sig list \<Rightarrow> sig list \<Rightarrow> sig list \<Rightarrow> wire_state
     \<Rightarrow> sig list \<times> sig list \<times> sig list \<times> wire_state" where
  "stage_a (a # b # c # raw) sums cars st =
     (let ((s, k), st1) = new_wires 0 Tag_raw st
      in stage_a raw (sums @ [s]) (cars @ [k]) (ops_append (0, Raw_triple, a, b, c, s, k) st1))"
| "stage_a raw sums cars st = (raw, sums, cars, st)"

fun fold_loop ::
  "nat \<Rightarrow> sig \<Rightarrow> sig list \<Rightarrow> sig list \<Rightarrow> wire_state \<Rightarrow> sig \<times> sig list \<times> wire_state" where
  "fold_loop col acc (b # c # queue) cars st =
     (let ((s, k), st1) = new_wires col Tag_none st
      in fold_loop col s queue (cars @ [k]) (ops_append (col, Triple, acc, b, c, s, k) st1))"
| "fold_loop col acc [b] cars st =
     (let ((s, k), st1) = new_wires col Tag_p st
      in (s, cars @ [k], ops_append (col, Pair, acc, b, Lit False, s, k) st1))"
| "fold_loop col acc [] cars st = (acc, cars, st)"

fun fold_column ::
  "nat \<Rightarrow> sig list \<Rightarrow> wire_state \<Rightarrow> sig option \<times> sig list \<times> wire_state" where
  "fold_column col [] st = (None, [], st)"
| "fold_column col (acc # queue) st =
     (let (r, cars, st1) = fold_loop col acc queue [] st in (Some r, cars, st1))"

text \<open>
  The dictionaries \<^verbatim>\<open>col_bits\<close>, \<^verbatim>\<open>const_names_per_col\<close> and \<^verbatim>\<open>residual_by_col\<close> are
  association lists; \<^verbatim>\<open>d.get(j, [])\<close> is \<open>cget d j\<close>.  The set \<^verbatim>\<open>pending_cols\<close> is a
  list without a meaningful order: it is only filtered and its minimum taken.
\<close>

definition cget :: "(nat \<times> 'a list) list \<Rightarrow> nat \<Rightarrow> 'a list" where
  "cget d j = (case map_of d j of None \<Rightarrow> [] | Some q \<Rightarrow> q)"

record loop_state =
  ws :: wire_state
  col_bits :: "(nat \<times> sig list) list"
  const_names_per_col :: "(nat \<times> sig list) list"
  pending_cols :: "nat list"
  residual_by_col :: "(nat \<times> sig) list"
  const_decl :: "sig list"
  current :: nat

definition candidates :: "loop_state \<Rightarrow> nat list" where
  "candidates st =
     filter (\<lambda>c. c \<ge> current st \<and> (cget (col_bits st) c \<noteq> [] \<or> cget (const_names_per_col st) c \<noteq> []))
       (pending_cols st)"

text \<open>One pass of the \<^verbatim>\<open>while True\<close> body for the chosen column \<open>j\<close>.\<close>

definition sched_step :: "nat \<Rightarrow> loop_state \<Rightarrow> loop_state" where
  "sched_step j st =
     (let cn = cget (const_names_per_col st) j;
          qj = cget (col_bits st) j @ cn;
          (residual_j, carries_to_next, w1) = fold_column j qj (ws st);
          res1 = (case residual_j of None \<Rightarrow> residual_by_col st
                  | Some r \<Rightarrow> AList.update j r (residual_by_col st));
          cb1 = (if carries_to_next \<noteq> []
                 then AList.update (j + 1) (cget (col_bits st) (j + 1) @ carries_to_next) (col_bits st)
                 else col_bits st);
          pend1 = (if carries_to_next \<noteq> [] then List.insert (j + 1) (pending_cols st)
                   else pending_cols st);
          cb2 = (if j \<in> fst ` set cb1 then AList.update j [] cb1 else cb1);
          cn2 = (if j \<in> fst ` set (const_names_per_col st)
                 then AList.update j [] (const_names_per_col st) else const_names_per_col st)
      in \<lparr>ws = w1, col_bits = cb2, const_names_per_col = cn2, pending_cols = pend1,
          residual_by_col = res1, const_decl = const_decl st @ cn, current = j + 1\<rparr>)"

definition tok_measure :: "nat \<Rightarrow> (nat \<times> sig list) list \<Rightarrow> nat" where
  "tok_measure cur d = sum_list (map (\<lambda>(c, q). if c \<ge> cur then length q else 0) d)"

definition loop_measure :: "loop_state \<Rightarrow> nat" where
  "loop_measure st =
     tok_measure (current st) (col_bits st) + tok_measure (current st) (const_names_per_col st)"

text \<open>
  Each pass consumes at least one pending token of a column at or above \<^verbatim>\<open>current\<close> and
  hands at most half as many carries to the next column, so the \<^verbatim>\<open>while True\<close> loop ends.
\<close>

lemma fold_loop_len:
  "fold_loop col acc q cars st = (r, cars', st') \<Longrightarrow>
     length cars' = length cars + (length q + 1) div 2"
  by (induction col acc q cars st rule: fold_loop.induct)
     (auto simp: new_wires_def Let_def split: prod.splits)

lemma fold_column_len:
  "fold_column col q st = (r, cars, st') \<Longrightarrow> length cars = length q div 2"
  by (cases q) (auto split: prod.splits dest: fold_loop_len)

lemma tok_measure_drop:
  "cur \<le> j \<Longrightarrow> tok_measure (Suc j) d + length (cget d j) \<le> tok_measure cur d"
  by (induction d) (auto simp: tok_measure_def cget_def split: option.splits)

lemma tok_measure_update_other:
  "tok_measure (Suc j) (AList.update j q d) = tok_measure (Suc j) d"
  by (induction d) (auto simp: tok_measure_def)

lemma tok_measure_update_app:
  "tok_measure cur (AList.update j (cget d j @ q) d) \<le> tok_measure cur d + length q"
  by (induction d) (auto simp: tok_measure_def cget_def split: option.splits)

lemma sched_step_measure:
  assumes "j \<ge> current st"
    and "cget (col_bits st) j \<noteq> [] \<or> cget (const_names_per_col st) j \<noteq> []"
  shows "loop_measure (sched_step j st) < loop_measure st"
proof -
  obtain r cars w1 where fc:
    "fold_column j (cget (col_bits st) j @ cget (const_names_per_col st) j) (ws st) = (r, cars, w1)"
    by (metis prod_cases3)
  have len: "length cars =
      (length (cget (col_bits st) j) + length (cget (const_names_per_col st) j)) div 2"
    using fold_column_len[OF fc] by simp
  have a: "tok_measure (Suc j) (col_bits st) + length (cget (col_bits st) j)
      \<le> tok_measure (current st) (col_bits st)"
    using assms(1) by (rule tok_measure_drop)
  have b: "tok_measure (Suc j) (const_names_per_col st) + length (cget (const_names_per_col st) j)
      \<le> tok_measure (current st) (const_names_per_col st)"
    using assms(1) by (rule tok_measure_drop)
  have c: "tok_measure (Suc j) (AList.update (Suc j) (cget (col_bits st) (Suc j) @ cars) (col_bits st))
      \<le> tok_measure (Suc j) (col_bits st) + length cars"
    by (rule tok_measure_update_app)
  have pos: "length (cget (col_bits st) j) + length (cget (const_names_per_col st) j) > 0"
    using assms(2) by auto
  have d: "length cars < length (cget (col_bits st) j) + length (cget (const_names_per_col st) j)"
    using len pos by arith
  have e: "tok_measure (Suc j) (col_bits (sched_step j st))
      \<le> tok_measure (Suc j) (col_bits st) + length cars"
    using c by (auto simp: sched_step_def fc Let_def tok_measure_update_other)
  have f: "tok_measure (Suc j) (const_names_per_col (sched_step j st))
      = tok_measure (Suc j) (const_names_per_col st)"
    by (auto simp: sched_step_def fc Let_def tok_measure_update_other)
  have g: "current (sched_step j st) = Suc j"
    by (auto simp: sched_step_def fc Let_def)
  show ?thesis
    unfolding loop_measure_def g using a b d e f by linarith
qed

lemma candidates_Min:
  assumes "candidates st \<noteq> []"
  shows "Min (set (candidates st)) \<ge> current st \<and>
     (cget (col_bits st) (Min (set (candidates st))) \<noteq> [] \<or>
      cget (const_names_per_col st) (Min (set (candidates st))) \<noteq> [])"
proof -
  have "Min (set (candidates st)) \<in> set (candidates st)"
    using assms by (intro Min_in) auto
  then show ?thesis by (auto simp: candidates_def)
qed

text \<open>The \<^verbatim>\<open>while True\<close> loop: stop when there is no candidate, else fold the least one.\<close>

function sched_loop :: "loop_state \<Rightarrow> loop_state" where
  "sched_loop st =
     (if candidates st = [] then st
      else sched_loop (sched_step (Min (set (candidates st))) st))"
  by pat_completeness auto
termination
  by (relation "measure loop_measure") (auto dest!: candidates_Min intro: sched_step_measure)

declare sched_loop.simps [simp del]

definition csa_macro_schedule_all_columns ::
  "sig list \<Rightarrow> (nat \<times> sig list) list
     \<Rightarrow> sched_op list \<times> (sig \<times> sig) list \<times> (nat \<times> sig) list \<times> sig list" where
  "csa_macro_schedule_all_columns raw_inputs cnames =
     (let w0 = \<lparr>s_fa_id = 0, s_ops = [], s_wires = []\<rparr>;
          (raw, col0_sums, c1, w1) = stage_a raw_inputs [] [] w0;
          c0 = cget cnames 0;
          col0_queue = col0_sums @ raw @ c0;
          (res0, carries_to_1, w2) = fold_column 0 col0_queue w1;
          res = (case res0 of None \<Rightarrow> [] | Some r \<Rightarrow> [(0, r)]);
          cb = [(1, c1 @ carries_to_1)];
          st = sched_loop \<lparr>ws = w2, col_bits = cb, const_names_per_col = cnames,
                 pending_cols = List.union (map fst cb) (map fst cnames),
                 residual_by_col = res, const_decl = c0, current = 1\<rparr>
      in (s_ops (ws st), s_wires (ws st), residual_by_col st, const_decl st))"

section \<open>\<^verbatim>\<open>emit_folded_bias\<close>\<close>

text \<open>
  The Verilog text and the \<^verbatim>\<open>fa_levels\<close> statistic are left out; so is the replay through
  \<^verbatim>\<open>fold_for_last\<close>, whose only effect is on a variable that is never read.  The decision
  is the carry of the last operation whose column is \<^verbatim>\<open>w - 1\<close>.
\<close>

record fb_stats =
  threshold :: nat
  w_bits :: nat
  bias_K :: int
  K_bits_set :: "nat list"
  fa_count :: nat
  maj_signal :: sig

fun last_k_at :: "int \<Rightarrow> sched_op list \<Rightarrow> sig option \<Rightarrow> sig option" where
  "last_k_at c [] last_k = last_k"
| "last_k_at c ((col, kd, a, b, cin, s, k) # ops) last_k =
     last_k_at c ops (if int col = c then Some k else last_k)"

definition fb_consts :: "nat \<Rightarrow> int \<Rightarrow> (nat \<times> sig list) list" where
  "fb_consts w kk = map (\<lambda>j. (j, [K j])) (filter (kbit kk) [0..<w])"

definition emit_core ::
  "(nat \<Rightarrow> nat) \<Rightarrow> nat \<Rightarrow> nat \<times> sched_op list \<times> sig list \<times> sig \<times> fb_stats" where
  "emit_core lg n =
     (let th = fb_th n; w = fb_w lg n; kk = fb_K lg n;
          (ops, wires, res, cdecl) =
             csa_macro_schedule_all_columns (map X [0..<n]) (fb_consts w kk);
          maj_cout = (if w = 0 then Lit False
                      else (case last_k_at (int w - 1) ops None of
                              Some k \<Rightarrow> k | None \<Rightarrow> Lit False))
      in (length ops, ops, map K (filter (kbit kk) [0..<w]), maj_cout,
          \<lparr>threshold = th, w_bits = w, bias_K = kk, K_bits_set = filter (kbit kk) [0..<w],
           fa_count = length ops, maj_signal = maj_cout\<rparr>))"

definition emit_folded_bias ::
  "(nat \<Rightarrow> nat) \<Rightarrow> int \<Rightarrow> error + (nat \<times> sched_op list \<times> sig list \<times> sig \<times> fb_stats)" where
  "emit_folded_bias lg n =
     (if n mod 2 = 1 \<and> n \<ge> 3 then Inr (emit_core lg (nat n)) else Inl AssertionError)"

section \<open>The baseline strict design\<close>

text \<open>
  \<^verbatim>\<open>build_baseline_strict_netlist\<close>.  \<open>p\<close> is the value \<open>lg (n + 1)\<close> of
  \<^verbatim>\<open>math.ceil(math.log2(n + 1))\<close>; the quantities derived from it are Python integers, and
  \<^verbatim>\<open>num_fix\<close> is negative when \<open>2 ^ p < n + 1\<close>: then the second assertion fails.
\<close>

definition th_mask_bit :: "int \<Rightarrow> nat \<Rightarrow> bool" where
  "th_mask_bit th_N j = kbit (th_N - 1) j"

definition hw_bit :: "(nat \<times> sig) list \<Rightarrow> nat \<Rightarrow> sig" where
  "hw_bit res i = (case map_of res i of None \<Rightarrow> Lit False | Some r \<Rightarrow> r)"

definition build_baseline_strict_netlist ::
  "(nat \<Rightarrow> nat) \<Rightarrow> int \<Rightarrow> error + (fa_op list \<times> sig list \<times> sig)" where
  "build_baseline_strict_netlist lg n0 =
     (if \<not> (n0 mod 2 = 1 \<and> n0 \<ge> 3) then Inl AssertionError
      else
        (let n = nat n0;
             p = lg (n + 1);
             N = 2 ^ p - (1 :: int);
             m = p;
             th_N = (N + 1) div 2;
             k = (n0 - 1) div 2;
             n_big = (N - 1) div 2;
             num_fix = n_big - k
         in if \<not> (num_fix \<ge> 0) then Inl AssertionError
            else
              (let hw_inputs = map X [0..<n] @ replicate (nat num_fix) (Lit True)
                                 @ replicate (nat num_fix) (Lit False);
                   (ops, wires, res, cdecl) = csa_macro_schedule_all_columns hw_inputs [];
                   cmp = map (\<lambda>i. (hw_bit res i,
                                      (if th_mask_bit th_N i then T i else Lit False),
                                      C2 i, S2 i, C2 (i + 1))) [0..<m];
                   const1_names = [C2 0] @ map T (filter (th_mask_bit th_N) [0..<m])
               in Inr (map strip_op ops @ cmp, const1_names, C2 m))))"

text \<open>
  \<^verbatim>\<open>emit_baseline_strict\<close> without its Verilog text and statistics: the same scaffold, with
  the comparator reading the alias wires \<^verbatim>\<open>hw_i\<close>.
\<close>

definition emit_baseline_strict ::
  "(nat \<Rightarrow> nat) \<Rightarrow> int \<Rightarrow> error + (nat \<times> fa_op list \<times> sig list \<times> sig)" where
  "emit_baseline_strict lg n0 =
     (if \<not> (n0 mod 2 = 1 \<and> n0 \<ge> 3) then Inl AssertionError
      else
        (let n = nat n0;
             p = lg (n + 1);
             N = 2 ^ p - (1 :: int);
             m = p;
             th_N = (N + 1) div 2;
             k = (n0 - 1) div 2;
             n_big = (N - 1) div 2;
             num_fix = n_big - k
         in if \<not> (num_fix \<ge> 0) then Inl AssertionError
            else
              (let hw_inputs = map X [0..<n] @ replicate (nat num_fix) (Lit True)
                                 @ replicate (nat num_fix) (Lit False);
                   (ops, wires, res, cdecl) = csa_macro_schedule_all_columns hw_inputs [];
                   cmp = map (\<lambda>i. (Hw i,
                                      (if th_mask_bit th_N i then T i else Lit False),
                                      C2 i, S2 i, C2 (i + 1))) [0..<m];
                   const1_names = [C2 0] @ map T (filter (th_mask_bit th_N) [0..<m])
               in Inr (length ops + m, map strip_op ops @ cmp, const1_names, C2 m))))"

section \<open>The canonical two-level emitter\<close>

text \<open>
  The emitter works on BLIF names, which are Python strings compared by \<^verbatim>\<open>sorted\<close> in
  lexicographic code-point order: \<open>string\<close> with the order of \<open>Char_ord\<close> and
  \<open>List_Lexorder\<close>.  \<^verbatim>\<open>list.index\<close> returns the first position of a value (it is only
  called on values that occur).
\<close>

fun index_of :: "'a list \<Rightarrow> 'a \<Rightarrow> nat" where
  "index_of [] x = 0"
| "index_of (y # ys) x = (if y = x then 0 else Suc (index_of ys x))"

definition sorted3 :: "string \<Rightarrow> string \<Rightarrow> string \<Rightarrow> string list \<times> nat list" where
  "sorted3 a b c =
     (let lst = [a, b, c]; srt = sort lst; perm = map (\<lambda>i. index_of lst (srt ! i)) [0..<3]
      in (srt, perm))"

definition permute_pattern :: "string \<Rightarrow> nat list \<Rightarrow> string" where
  "permute_pattern p perm = (if length p \<noteq> 3 then p else map (\<lambda>i. p ! (perm ! i)) [0..<3])"

definition bitc :: "bool \<Rightarrow> char" where
  "bitc b = (if b then CHR ''1'' else CHR ''0'')"

text \<open>
  A \<^verbatim>\<open>.names\<close> block: the input names, the output name and the rows whose output is 1.
\<close>

record gate =
  g_inputs :: "string list"
  g_output :: string
  g_rows :: "string list"

text \<open>
  \<^verbatim>\<open>emit_maj3(A, B, C, OUT, mask)\<close>: the three nested loops over \<^verbatim>\<open>(0, 1)\<close>, the
  complement mask carried to the sorted positions, then \<^verbatim>\<open>sorted(set(rows))\<close>.
\<close>

definition emit_maj3 ::
  "string \<Rightarrow> string \<Rightarrow> string \<Rightarrow> string \<Rightarrow> (bool \<times> bool \<times> bool) option \<Rightarrow> gate" where
  "emit_maj3 A B C OUT msk =
     (let (na, nb, nc) = (case msk of None \<Rightarrow> (False, False, False) | Some m \<Rightarrow> m);
          (srt, perm) = sorted3 A B C;
          mask_orig = [na, nb, nc];
          mask_sorted = map (\<lambda>perm_idx. mask_orig ! perm_idx) perm;
          rows = concat (map (\<lambda>a. concat (map (\<lambda>b. concat (map (\<lambda>c.
                   if of_bool (a \<noteq> mask_sorted ! 0) + of_bool (b \<noteq> mask_sorted ! 1)
                        + of_bool (c \<noteq> mask_sorted ! 2) \<ge> (2 :: nat)
                   then [[bitc a, bitc b, bitc c]] else [])
                 [False, True])) [False, True])) [False, True])
      in \<lparr>g_inputs = srt, g_output = OUT, g_rows = sort (remdups rows)\<rparr>)"

text \<open>\<^verbatim>\<open>emit_xor3(A, B, C, S)\<close>: the four odd-parity rows, each permuted; no sorting follows.\<close>

definition emit_xor3 :: "string \<Rightarrow> string \<Rightarrow> string \<Rightarrow> string \<Rightarrow> gate" where
  "emit_xor3 A B C S =
     (let (srt, perm) = sorted3 A B C;
          rows = [''001'', ''010'', ''100'', ''111''];
          rows1 = map (\<lambda>r. permute_pattern r perm) rows
      in \<lparr>g_inputs = srt, g_output = S, g_rows = rows1\<rparr>)"

text \<open>Decimal digits of \<^verbatim>\<open>f"{i}"\<close>, for the name \<^verbatim>\<open>f"fa{i}_op1"\<close>.\<close>

fun dec :: "nat \<Rightarrow> string" where
  "dec n = (if n < 10 then [char_of (48 + n)] else dec (n div 10) @ [char_of (48 + n mod 10)])"

declare dec.simps [simp del]

text \<open>
  The body of the loop \<^verbatim>\<open>for i, (a, b, cin, s, k) in enumerate(fa_ops)\<close>, on names that
  \<^verbatim>\<open>map_in\<close> and \<^verbatim>\<open>_sanitize\<close> have already produced.
\<close>

definition expand_fa :: "bool \<Rightarrow> nat \<Rightarrow> string \<times> string \<times> string \<times> string \<times> string \<Rightarrow> gate list" where
  "expand_fa maj_only i opn =
     (let (A, B, C, S, Kn) = opn
      in if maj_only then
           (let op1 = ''fa'' @ dec i @ ''_op1''
            in [emit_maj3 A B C Kn None,
                emit_maj3 A B C op1 (Some (True, False, False)),
                emit_maj3 op1 A Kn S (Some (False, False, True))])
         else [emit_xor3 A B C S, emit_maj3 A B C Kn None])"

text \<open>
  A \<^verbatim>\<open>.names\<close> block drives its output to 1 exactly on the listed rows; blocks are read in
  the order of emission.
\<close>

definition gate_val :: "(string \<Rightarrow> bool) \<Rightarrow> gate \<Rightarrow> bool" where
  "gate_val e g = (map (\<lambda>x. bitc (e x)) (g_inputs g) \<in> set (g_rows g))"

definition gate_step :: "(string \<Rightarrow> bool) \<Rightarrow> gate \<Rightarrow> (string \<Rightarrow> bool)" where
  "gate_step e g = e(g_output g := gate_val e g)"

definition run_gates :: "gate list \<Rightarrow> (string \<Rightarrow> bool) \<Rightarrow> (string \<Rightarrow> bool)" where
  "run_gates gs e = foldl gate_step e gs"

section \<open>The netlist optimizer\<close>

text \<open>
  \<^verbatim>\<open>resolve\<close> follows \<^verbatim>\<open>const_map\<close> until the name is no longer a key.  The Python loop has
  no cycle check, so the model is partial: \<open>None\<close> stands for a loop that never ends.
  \<^verbatim>\<open>_prune_fa_netlist\<close> walks the reversed list with the set \<^verbatim>\<open>needed\<close>;
  \<^verbatim>\<open>_constant_fold_and_prune\<close> folds, resolves every field of the kept operations and the
  decision signal, and prunes.
\<close>

partial_function (option) resolve :: "(sig \<rightharpoonup> sig) \<Rightarrow> sig \<Rightarrow> sig option" where
  "resolve const_map s = (case const_map s of None \<Rightarrow> Some s | Some s' \<Rightarrow> resolve const_map s')"

declare resolve.simps [code]

fun prune_rev :: "sig set \<Rightarrow> fa_op list \<Rightarrow> fa_op list" where
  "prune_rev needed [] = []"
| "prune_rev needed ((a, b, cin, s, k) # ops) =
     (if s \<in> needed \<or> k \<in> needed
      then (a, b, cin, s, k) # prune_rev (needed \<union> set (filter (\<lambda>x. \<not> is_const x) [a, b, cin])) ops
      else prune_rev needed ops)"

definition prune_fa_netlist :: "fa_op list \<Rightarrow> sig \<Rightarrow> fa_op list" where
  "prune_fa_netlist ops maj = rev (prune_rev {maj} (rev ops))"

fun cf_loop :: "fa_op list \<Rightarrow> (sig \<rightharpoonup> sig) \<Rightarrow> fa_op list \<Rightarrow> ((sig \<rightharpoonup> sig) \<times> fa_op list) option" where
  "cf_loop [] const_map processed = Some (const_map, processed)"
| "cf_loop ((a, b, cin, s, k) # ops) const_map processed =
     Option.bind (resolve const_map a) (\<lambda>a1.
     Option.bind (resolve const_map b) (\<lambda>b1.
     Option.bind (resolve const_map cin) (\<lambda>c1.
       if is_const a1 \<and> is_const b1 \<and> is_const c1 then
         (let ones = (of_bool (a1 = Lit True) + of_bool (b1 = Lit True) + of_bool (c1 = Lit True) :: nat);
              cm1 = const_map(s \<mapsto> Lit (odd ones));
              cm2 = cm1(k \<mapsto> Lit (ones \<ge> 2))
          in cf_loop ops cm2 processed)
       else cf_loop ops const_map (processed @ [(a1, b1, c1, s, k)]))))"

fun resolve_op :: "(sig \<rightharpoonup> sig) \<Rightarrow> fa_op \<Rightarrow> fa_op option" where
  "resolve_op const_map (a, b, cin, s, k) =
     Option.bind (resolve const_map a) (\<lambda>a1.
     Option.bind (resolve const_map b) (\<lambda>b1.
     Option.bind (resolve const_map cin) (\<lambda>c1.
     Option.bind (resolve const_map s) (\<lambda>s1.
     Option.bind (resolve const_map k) (\<lambda>k1. Some (a1, b1, c1, s1, k1))))))"

definition constant_fold_and_prune :: "fa_op list \<Rightarrow> sig \<Rightarrow> (fa_op list \<times> sig) option" where
  "constant_fold_and_prune ops maj =
     Option.bind (cf_loop ops Map.empty []) (\<lambda>(const_map, processed).
     Option.bind (resolve const_map maj) (\<lambda>maj1.
     Option.bind (those (map (resolve_op const_map) processed)) (\<lambda>folded.
       Some (prune_fa_netlist folded maj1, maj1))))"


text \<open>
  The invariant of a full-adder network that the optimizer relies on: no output is a
  literal, and no operand of an operation is produced by that operation or a later one
  (no forward reference).
\<close>

fun outs :: "fa_op list \<Rightarrow> sig set" where
  "outs [] = {}"
| "outs ((a, b, cin, s, k) # ops) = {s, k} \<union> outs ops"

fun fan_invariant :: "fa_op list \<Rightarrow> bool" where
  "fan_invariant [] = True"
| "fan_invariant ((a, b, cin, s, k) # ops) =
     (\<not> is_const s \<and> \<not> is_const k \<and> {a, b, cin} \<inter> ({s, k} \<union> outs ops) = {} \<and> fan_invariant ops)"

section \<open>Parameter validation and the smallest instance\<close>

lemma clog2_ge: "x \<le> 2 ^ clog2 x"
proof (induction x rule: clog2.induct)
  case (1 x)
  show ?case
  proof (cases "x \<le> 1")
    case True
    then show ?thesis by (simp add: clog2.simps)
  next
    case False
    then have "(x + 1) div 2 \<le> 2 ^ clog2 ((x + 1) div 2)" using 1 by simp
    then show ?thesis using False by (subst clog2.simps) auto
  qed
qed

text \<open>
  The entry points read \<open>lg\<close> at one argument only: the folded-bias design at the threshold,
  the baseline at \<open>n + 1\<close>.
\<close>

lemma fb_core_cong: "lg (fb_th n) = lg' (fb_th n) \<Longrightarrow> fb_core lg n = fb_core lg' n"
  by (simp add: fb_core_def fb_w_def fb_K_def)

lemma emit_core_cong: "lg (fb_th n) = lg' (fb_th n) \<Longrightarrow> emit_core lg n = emit_core lg' n"
  by (simp add: emit_core_def fb_w_def fb_K_def)

text \<open>\<^verbatim>\<open>num_fix\<close> is negative exactly when \<open>2 ^ p < n + 1\<close>.\<close>

lemma num_fix_sign:
  assumes "n mod 2 = 1" "3 \<le> n"
  shows "(2 ^ p - 1 - 1) div 2 - (n - 1) div 2 \<ge> 0 \<longleftrightarrow> n + 1 \<le> (2 ^ p :: int)"
proof (cases p)
  case 0
  then show ?thesis using assms by simp
next
  case (Suc q)
  define Q :: int where "Q = 2 ^ q"
  have P: "(2 ^ p :: int) = 2 * Q" by (simp add: Suc Q_def)
  have "(2 * Q - 1 - 1) div 2 = Q - 1" by presburger
  moreover have "(n - 1) div 2 * 2 = n - 1" using assms(1) by presburger
  ultimately show ?thesis unfolding P by presburger
qed

lemma baseline_inl:
  assumes "n mod 2 = 1" "3 \<le> n"
  shows "build_baseline_strict_netlist lg n = Inl AssertionError \<longleftrightarrow> 2 ^ lg (nat n + 1) < n + 1"
    and "emit_baseline_strict lg n = Inl AssertionError \<longleftrightarrow> 2 ^ lg (nat n + 1) < n + 1"
  using assms num_fix_sign[OF assms, of "lg (nat n + 1)"]
  by (auto simp: emit_baseline_strict_def build_baseline_strict_netlist_def Let_def
        split: prod.splits)

text \<open>
  Claim C10.  The two folded-bias entry points return an error, and so build no operation,
  exactly when \<open>n\<close> is not an odd integer that is at least 3.  The two baseline entry points
  return an error in that case and in one more: when \<^verbatim>\<open>math.ceil(math.log2(n + 1))\<close> returns
  a \<open>p\<close> with \<open>2 ^ p < n + 1\<close>, the second assertion \<^verbatim>\<open>num_fix >= 0\<close> fails.  In double
  precision this happens for the odd \<open>n = 2 ^ 50 + 1\<close>, where the logarithm of \<open>2 ^ 50 + 2\<close>
  rounds to \<open>50.0\<close>.
\<close>

theorem rejection_of_n:
  "((\<exists>e. emit_folded_bias lg n = Inl e) \<longleftrightarrow> \<not> (n mod 2 = 1 \<and> 3 \<le> n)) \<and>
   ((\<exists>e. build_folded_bias_netlist lg n = Inl e) \<longleftrightarrow> \<not> (n mod 2 = 1 \<and> 3 \<le> n)) \<and>
   ((\<exists>e. emit_baseline_strict lg n = Inl e) \<longleftrightarrow>
      \<not> (n mod 2 = 1 \<and> 3 \<le> n) \<or> 2 ^ lg (nat n + 1) < n + 1) \<and>
   ((\<exists>e. build_baseline_strict_netlist lg n = Inl e) \<longleftrightarrow>
      \<not> (n mod 2 = 1 \<and> 3 \<le> n) \<or> 2 ^ lg (nat n + 1) < n + 1)"
proof (cases "n mod 2 = 1 \<and> 3 \<le> n")
  case False
  then show ?thesis
    by (simp add: emit_folded_bias_def build_folded_bias_netlist_def
          emit_baseline_strict_def build_baseline_strict_netlist_def)
next
  case True
  note s = baseline_inl[of n lg]
  have a: "(\<exists>e. emit_folded_bias lg n = Inl e) \<longleftrightarrow> \<not> (n mod 2 = 1 \<and> 3 \<le> n)"
    using True by (simp add: emit_folded_bias_def)
  have b: "(\<exists>e. build_folded_bias_netlist lg n = Inl e) \<longleftrightarrow> \<not> (n mod 2 = 1 \<and> 3 \<le> n)"
    using True by (simp add: build_folded_bias_netlist_def)
  have ae: "(\<exists>e. r = Inl e) \<longleftrightarrow> r = Inl AssertionError" for r :: "error + 'a"
  proof
    assume "\<exists>e. r = Inl e"
    then obtain e where "r = Inl e" by blast
    then show "r = Inl AssertionError" by (cases e) simp
  qed blast
  have c: "(\<exists>e. emit_baseline_strict lg n = Inl e) \<longleftrightarrow>
      \<not> (n mod 2 = 1 \<and> 3 \<le> n) \<or> 2 ^ lg (nat n + 1) < n + 1"
    unfolding ae using True s(2) by simp
  have d: "(\<exists>e. build_baseline_strict_netlist lg n = Inl e) \<longleftrightarrow>
      \<not> (n mod 2 = 1 \<and> 3 \<le> n) \<or> 2 ^ lg (nat n + 1) < n + 1"
    unfolding ae using True s(1) by simp
  show ?thesis using a b c d by (intro conjI)
qed

theorem rejection_of_n_witness:
  "(\<exists>e. emit_folded_bias (\<lambda>x. 50) 4 = Inl e) \<and>
   (\<exists>e. build_folded_bias_netlist (\<lambda>x. 50) 1 = Inl e) \<and>
   (\<exists>e. emit_baseline_strict (\<lambda>x. 50) (- 3) = Inl e) \<and>
   \<not> (\<exists>e. emit_folded_bias (\<lambda>x. 50) (2 ^ 50 + 1) = Inl e) \<and>
   \<not> (\<exists>e. build_folded_bias_netlist (\<lambda>x. 50) (2 ^ 50 + 1) = Inl e) \<and>
   (\<exists>e. emit_baseline_strict (\<lambda>x. 50) (2 ^ 50 + 1) = Inl e) \<and>
   (\<exists>e. build_baseline_strict_netlist (\<lambda>x. 50) (2 ^ 50 + 1) = Inl e) \<and>
   \<not> (\<exists>e. build_baseline_strict_netlist (\<lambda>x. 3) 5 = Inl e)"
  using rejection_of_n [of "\<lambda>x. 50" 4] rejection_of_n [of "\<lambda>x. 50" 1]
    rejection_of_n [of "\<lambda>x. 50" "- 3"] rejection_of_n [of "\<lambda>x. 50" "2 ^ 50 + 1"]
    rejection_of_n [of "\<lambda>x. 3" 5]
  by simp

text \<open>The smallest instance, at the exact logarithm.\<close>

lemma n3_exact:
  "fb_th 3 = 2 \<and> fb_w clog2 3 = 1 \<and> fb_K clog2 3 = 0 \<and>
   fb_core clog2 3 =
     ([(X 0, X 1, X 2, SumW Tag_raw 0 0, CarW Tag_raw 0 0)], [], CarW Tag_raw 0 0) \<and>
   emit_core clog2 3 =
     (1, [(0, Raw_triple, X 0, X 1, X 2, SumW Tag_raw 0 0, CarW Tag_raw 0 0)], [],
          CarW Tag_raw 0 0,
          \<lparr>threshold = 2, w_bits = 1, bias_K = 0, K_bits_set = [], fa_count = 1,
           maj_signal = CarW Tag_raw 0 0\<rparr>)"
  by code_simp

text \<open>
  Claim C3, as stated: for \<open>n = 3\<close> the threshold is 2, the width is 1, the bias is 1 and
  the network is one full adder.  The logarithm of 2 is exactly 1 in double precision, so
  the width is \<open>clog2 2 = 1\<close>, and the bias the code computes is \<open>2 ^ 1 - 2 = 0\<close>.
\<close>

theorem n3_bias_counterexample:
  "\<not> (fb_th 3 = 2 \<and> fb_w clog2 3 = 1 \<and> fb_K clog2 3 = 1 \<and> length (fst (fb_core clog2 3)) = 1)"
  by code_simp

text \<open>
  Claim C3, amended: for \<open>n = 3\<close> the threshold is 2, the width is 1, the bias is 0 (no
  constant is injected), and both constructions consist of exactly one full adder over the
  three inputs, whose carry is the decision.  The width is read off \<open>lg 2 = 1\<close>.
\<close>

theorem n3_single_full_adder:
  assumes "lg 2 = 1"
  shows "fb_th 3 = 2 \<and> fb_w lg 3 = 1 \<and> fb_K lg 3 = 0 \<and>
   build_folded_bias_netlist lg 3 =
     Inr ([(X 0, X 1, X 2, SumW Tag_raw 0 0, CarW Tag_raw 0 0)], [], CarW Tag_raw 0 0) \<and>
   emit_folded_bias lg 3 =
     Inr (1, [(0, Raw_triple, X 0, X 1, X 2, SumW Tag_raw 0 0, CarW Tag_raw 0 0)], [],
          CarW Tag_raw 0 0,
          \<lparr>threshold = 2, w_bits = 1, bias_K = 0, K_bits_set = [], fa_count = 1,
           maj_signal = CarW Tag_raw 0 0\<rparr>)"
proof -
  have t: "fb_th 3 = 2" using n3_exact by simp
  have c2: "clog2 2 = 1" by code_simp
  have l: "lg (fb_th 3) = clog2 (fb_th 3)" unfolding t using assms c2 by simp
  have w: "fb_w lg 3 = 1" "fb_K lg 3 = 0" using assms t by (simp_all add: fb_w_def fb_K_def)
  show ?thesis
    using n3_exact w fb_core_cong[of lg 3 clog2, OF l] emit_core_cong[of lg 3 clog2, OF l]
    by (simp add: build_folded_bias_netlist_def emit_folded_bias_def)
qed

theorem n3_single_full_adder_witness:
  "clog2 2 = 1 \<and> fb_K clog2 3 = 0 \<and>
   build_folded_bias_netlist clog2 3 =
     Inr ([(X 0, X 1, X 2, SumW Tag_raw 0 0, CarW Tag_raw 0 0)], [], CarW Tag_raw 0 0)"
proof -
  have c: "clog2 2 = 1" by code_simp
  show ?thesis using n3_single_full_adder [of clog2, OF c] c by simp
qed

section \<open>Canonical emission of three-input gates\<close>

lemma upt_3: "[0..<3] = [0, 1, 2]"
  by (simp add: upt_rec)

lemma index_of_nth: "x \<in> set lst \<Longrightarrow> lst ! index_of lst x = x"
  by (induction lst) auto

lemma index_of_less: "x \<in> set lst \<Longrightarrow> index_of lst x < length lst"
  by (induction lst) auto

lemma bitc_inj [simp]: "bitc a = bitc b \<longleftrightarrow> a = b"
  by (auto simp: bitc_def)

text \<open>The row list of a majority gate whose sorted inputs carry the masks \<open>m0 m1 m2\<close>.\<close>

definition maj_rows :: "bool \<Rightarrow> bool \<Rightarrow> bool \<Rightarrow> string list" where
  "maj_rows m0 m1 m2 =
     sort (remdups (concat (map (\<lambda>a. concat (map (\<lambda>b. concat (map (\<lambda>c.
                   if of_bool (a \<noteq> m0) + of_bool (b \<noteq> m1) + of_bool (c \<noteq> m2) \<ge> (2 :: nat)
                   then [[bitc a, bitc b, bitc c]] else [])
                 [False, True])) [False, True])) [False, True])))"

lemma maj_rows_mem:
  "[bitc x, bitc y, bitc z] \<in> set (maj_rows m0 m1 m2) \<longleftrightarrow> majority3 (x \<noteq> m0) (y \<noteq> m1) (z \<noteq> m2)"
  unfolding maj_rows_def set_sort set_remdups
  by (cases x; cases y; cases z; cases m0; cases m1; cases m2; simp add: bitc_def majority3_def)

lemma emit_maj3_struct:
  assumes mfA: "mf A = na" and mfB: "mf B = nb" and mfC: "mf C = nc"
  shows "emit_maj3 A B C OUT (Some (na, nb, nc)) =
     \<lparr>g_inputs = sort [A, B, C], g_output = OUT,
      g_rows = maj_rows (mf (sort [A, B, C] ! 0)) (mf (sort [A, B, C] ! 1)) (mf (sort [A, B, C] ! 2))\<rparr>"
proof -
  have m: "[na, nb, nc] ! index_of [A, B, C] x = mf x" if "x \<in> set [A, B, C]" for x
  proof -
    have "[na, nb, nc] = map mf [A, B, C]" using assms by simp
    then have "[na, nb, nc] ! index_of [A, B, C] x = mf ([A, B, C] ! index_of [A, B, C] x)"
      using index_of_less[OF that] by (metis nth_map)
    then show ?thesis using index_of_nth[OF that] by simp
  qed
  have mem: "sort [A, B, C] ! i \<in> set [A, B, C]" if "i < 3" for i
  proof -
    have "sort [A, B, C] ! i \<in> set (sort [A, B, C])" using that by (intro nth_mem) simp
    then show ?thesis by (simp only: set_sort)
  qed
  define srt where "srt = sort [A, B, C]"
  have ms: "map (\<lambda>perm_idx. [na, nb, nc] ! perm_idx) (map (\<lambda>i. index_of [A, B, C] (srt ! i)) [0..<3])
      = [mf (srt ! 0), mf (srt ! 1), mf (srt ! 2)]"
    using m[OF mem, of 0] m[OF mem, of 1] m[OF mem, of 2] unfolding srt_def by (simp add: upt_3)
  have n: "[u, v, w] ! 0 = u" "[u, v, w] ! 1 = v" "[u, v, w] ! 2 = w" for u v w :: bool
    by (simp_all add: numeral_2_eq_2)
  show ?thesis
    unfolding emit_maj3_def sorted3_def Let_def prod.case option.case srt_def[symmetric] ms
      maj_rows_def n ..
qed


lemma sort3_perm:
  "sort [a, b, c] \<in> {[a, b, c], [a, c, b], [c, a, b], [b, a, c], [b, c, a], [c, b, a]}"
  by auto

lemma majority3_sort:
  "majority3 (f (sort [a, b, c] ! 0)) (f (sort [a, b, c] ! 1)) (f (sort [a, b, c] ! 2))
     = majority3 (f a) (f b) (f c)"
proof -
  have n: "[u, v, w] ! 0 = u" "[u, v, w] ! 1 = v" "[u, v, w] ! 2 = w" for u v w :: string
    by (simp_all add: numeral_2_eq_2)
  consider "sort [a, b, c] = [a, b, c]" | "sort [a, b, c] = [a, c, b]" | "sort [a, b, c] = [c, a, b]"
    | "sort [a, b, c] = [b, a, c]" | "sort [a, b, c] = [b, c, a]" | "sort [a, b, c] = [c, b, a]"
    using sort3_perm[of a b c] by blast
  then show ?thesis
    by cases (simp_all only: n, auto simp: majority3_def)
qed

lemma emit_maj3_val:
  assumes "A = B \<longrightarrow> na = nb" "A = C \<longrightarrow> na = nc" "B = C \<longrightarrow> nb = nc"
  shows "gate_val e (emit_maj3 A B C OUT (Some (na, nb, nc)))
     = majority3 (e A \<noteq> na) (e B \<noteq> nb) (e C \<noteq> nc)"
proof -
  define mf where "mf = (\<lambda>x. if x = A then na else if x = B then nb else nc)"
  have mf: "mf A = na" "mf B = nb" "mf C = nc"
    using assms by (auto simp: mf_def)
  obtain s0 s1 s2 where srt: "sort [A, B, C] = [s0, s1, s2]"
    using sort3_perm[of A B C] by auto
  have n: "[u, v, w] ! 0 = u" "[u, v, w] ! 1 = v" "[u, v, w] ! 2 = w" for u v w :: string
    by (simp_all add: numeral_2_eq_2)
  have "gate_val e (emit_maj3 A B C OUT (Some (na, nb, nc)))
      = majority3 (e s0 \<noteq> mf s0) (e s1 \<noteq> mf s1) (e s2 \<noteq> mf s2)"
    unfolding emit_maj3_struct[of mf, OF mf] gate_val_def srt n
    by (simp add: maj_rows_mem)
  also have "\<dots> = majority3 (e A \<noteq> mf A) (e B \<noteq> mf B) (e C \<noteq> mf C)"
    using majority3_sort[of "\<lambda>x. e x \<noteq> mf x" A B C] unfolding srt n .
  finally show ?thesis by (simp only: mf)
qed

lemma emit_maj3_None: "emit_maj3 A B C OUT None = emit_maj3 A B C OUT (Some (False, False, False))"
  by (simp add: emit_maj3_def)

lemma emit_maj3_output: "g_output (emit_maj3 A B C OUT m) = OUT"
  by (simp add: emit_maj3_def sorted3_def Let_def split: prod.splits option.splits)

lemma emit_maj3_inputs: "g_inputs (emit_maj3 A B C OUT m) = sort [A, B, C]"
  by (simp add: emit_maj3_def sorted3_def Let_def split: prod.splits option.splits)

text \<open>
  The majority-only lowering of a full adder is a list of exactly three gates, each over
  three inputs (no inverter block): the carry \<open>MAJ(A, B, C)\<close>, the intermediate
  \<open>MAJ(\<not>A, B, C)\<close> with the complement in the rows, and the sum
  \<open>MAJ(op1, A, \<not>carry)\<close>.  When the operand name \<open>A\<close> differs from \<open>B\<close> and \<open>C\<close> and
  the names written are not operands that are still to be read, the gates, read in order,
  leave majority(a, b, c) on the carry name and parity(a, b, c) on the sum name, for every
  valuation.
\<close>

lemma maj_only_lowering_distinct:
  assumes "A \<noteq> B" "A \<noteq> C" "Kn \<notin> {A, B, C}" "S \<noteq> Kn"
    and "''fa'' @ dec i @ ''_op1'' \<notin> {A, Kn}"
  shows "length (expand_fa True i (A, B, C, S, Kn)) = 3 \<and>
         (\<forall>g \<in> set (expand_fa True i (A, B, C, S, Kn)). length (g_inputs g) = 3) \<and>
         run_gates (expand_fa True i (A, B, C, S, Kn)) e Kn = majority3 (e A) (e B) (e C) \<and>
         run_gates (expand_fa True i (A, B, C, S, Kn)) e S = parity3 (e A) (e B) (e C)"
proof -
  define op1 where "op1 = ''fa'' @ dec i @ ''_op1''"
  define e1 where "e1 = gate_step e (emit_maj3 A B C Kn None)"
  define e2 where "e2 = gate_step e1 (emit_maj3 A B C op1 (Some (True, False, False)))"
  define e3 where "e3 = gate_step e2 (emit_maj3 op1 A Kn S (Some (False, False, True)))"
  have ex: "expand_fa True i (A, B, C, S, Kn) =
      [emit_maj3 A B C Kn None, emit_maj3 A B C op1 (Some (True, False, False)),
       emit_maj3 op1 A Kn S (Some (False, False, True))]"
    by (simp add: expand_fa_def op1_def Let_def)
  have run: "run_gates (expand_fa True i (A, B, C, S, Kn)) e = e3"
    by (simp add: ex run_gates_def e1_def e2_def e3_def)
  have d: "op1 \<noteq> A" "op1 \<noteq> Kn" "Kn \<noteq> A" "Kn \<noteq> B" "Kn \<noteq> C"
    using assms by (auto simp: op1_def)
  have v1: "e1 = e(Kn := majority3 (e A) (e B) (e C))"
    unfolding e1_def gate_step_def emit_maj3_output emit_maj3_None
    by (simp add: emit_maj3_val)
  have v2: "e2 = e1(op1 := majority3 (\<not> e A) (e B) (e C))"
    unfolding e2_def gate_step_def emit_maj3_output
    using assms(1,2) d by (simp add: emit_maj3_val v1)
  have v3: "e3 = e2(S := majority3 (e2 op1) (e2 A) (\<not> e2 Kn))"
    unfolding e3_def gate_step_def emit_maj3_output
    using d by (simp add: emit_maj3_val)
  have k: "e3 Kn = majority3 (e A) (e B) (e C)"
    using assms(4) d by (simp add: v3 v2 v1)
  have s: "e3 S = parity3 (e A) (e B) (e C)"
    using d by (auto simp: v3 v2 v1 majority3_def parity3_def)
  show ?thesis
    unfolding run using k s by (simp add: ex emit_maj3_inputs)
qed

lemma maj_only_lowering_example:
  "run_gates (expand_fa True 0 (''x0'', ''x1'', ''x2'', ''s'', ''k'')) (\<lambda>x. x = ''x1'') ''k'' = False \<and>
   run_gates (expand_fa True 0 (''x0'', ''x1'', ''x2'', ''s'', ''k'')) (\<lambda>x. x = ''x1'') ''s'' = True"
  using maj_only_lowering_distinct [of "''x0''" "''x1''" "''x2''" "''k''" "''s''" 0 "\<lambda>x. x = ''x1''"]
  by (simp add: majority3_def parity3_def dec.simps)

text \<open>
  Claim C8.  The claim is for every full-adder operation, and it fails for an operation
  whose first operand name occurs again as its second or third operand.  \<^verbatim>\<open>_sorted3\<close> finds
  the position of each sorted name with \<^verbatim>\<open>lst.index\<close>, which returns the first position of
  the name, so the complement mask \<open>(True, False, False)\<close> of the intermediate gate lands
  on both copies.  For the operands \<^verbatim>\<open>(CONST1, CONST1, x3)\<close> the three gates are the ones
  below; with \<^verbatim>\<open>CONST1\<close> and \<^verbatim>\<open>x3\<close> at 1 the sum name is left at 0, where
  parity(1, 1, 1) is 1.  The same happens for \<^verbatim>\<open>(CONST1, x1, CONST1)\<close>.
\<close>

theorem maj_only_lowering_duplicate_operand:
  "expand_fa True 0 (''CONST1'', ''CONST1'', ''x3'', ''s'', ''k'') =
     [\<lparr>g_inputs = [''CONST1'', ''CONST1'', ''x3''], g_output = ''k'',
       g_rows = [''011'', ''101'', ''110'', ''111'']\<rparr>,
      \<lparr>g_inputs = [''CONST1'', ''CONST1'', ''x3''], g_output = ''fa0_op1'',
       g_rows = [''000'', ''001'', ''011'', ''101'']\<rparr>,
      \<lparr>g_inputs = [''CONST1'', ''fa0_op1'', ''k''], g_output = ''s'',
       g_rows = [''010'', ''100'', ''110'', ''111'']\<rparr>] \<and>
   run_gates (expand_fa True 0 (''CONST1'', ''CONST1'', ''x3'', ''s'', ''k''))
       (\<lambda>x. x = ''CONST1'' \<or> x = ''x3'') ''s'' = False \<and>
   parity3 True True True = True \<and>
   run_gates (expand_fa True 0 (''CONST1'', ''x1'', ''CONST1'', ''s'', ''k''))
       (\<lambda>x. x = ''CONST1'' \<or> x = ''x1'') ''s'' = False"
  by code_simp

lemma sort3_swap12: "sort [b, a, c] = sort [a, b, (c::string)]"
  by auto

lemma sort3_swap23: "sort [a, c, b] = sort [a, b, (c::string)]"
  by auto

lemma maj_rows_sorted: "sorted (maj_rows m0 m1 m2) \<and> distinct (maj_rows m0 m1 m2)"
  unfolding maj_rows_def by (simp del: remdups.simps concat.simps map_append)

lemma emit_maj3_canonical:
  assumes "distinct [A, B, C]"
  shows "sorted (g_inputs (emit_maj3 A B C OUT (Some (na, nb, nc))))"
    and "sorted (g_rows (emit_maj3 A B C OUT (Some (na, nb, nc))))"
    and "distinct (g_rows (emit_maj3 A B C OUT (Some (na, nb, nc))))"
    and "emit_maj3 B A C OUT (Some (nb, na, nc)) = emit_maj3 A B C OUT (Some (na, nb, nc))"
    and "emit_maj3 A C B OUT (Some (na, nc, nb)) = emit_maj3 A B C OUT (Some (na, nb, nc))"
proof -
  define mf where "mf = (\<lambda>x. if x = A then na else if x = B then nb else nc)"
  have mf: "mf A = na" "mf B = nb" "mf C = nc"
    using assms by (auto simp: mf_def)
  note st = emit_maj3_struct[of mf, OF mf]
  show "sorted (g_inputs (emit_maj3 A B C OUT (Some (na, nb, nc))))"
    unfolding st gate.select_convs by (rule sorted_sort)
  show "sorted (g_rows (emit_maj3 A B C OUT (Some (na, nb, nc))))"
    unfolding st using maj_rows_sorted by simp
  show "distinct (g_rows (emit_maj3 A B C OUT (Some (na, nb, nc))))"
    unfolding st using maj_rows_sorted by simp
  show "emit_maj3 B A C OUT (Some (nb, na, nc)) = emit_maj3 A B C OUT (Some (na, nb, nc))"
    unfolding st emit_maj3_struct[of mf, OF mf(2) mf(1) mf(3)] sort3_swap12 ..
  show "emit_maj3 A C B OUT (Some (na, nc, nb)) = emit_maj3 A B C OUT (Some (na, nb, nc))"
    unfolding st emit_maj3_struct[of mf, OF mf(1) mf(3) mf(2)] sort3_swap23 ..
qed

text \<open>
  Claim C4.  For a majority gate over three different names the claim holds
  (\<open>emit_maj3_canonical\<close>).  For a parity gate it does not: \<^verbatim>\<open>emit_xor3\<close> permutes the
  rows \<^verbatim>\<open>001, 010, 100, 111\<close> and never sorts them, so the operand order
  \<^verbatim>\<open>("b", "a", "c")\<close> gives the rows \<^verbatim>\<open>001, 100, 010, 111\<close>, which are not ascending and
  differ from the rows given for \<^verbatim>\<open>("a", "b", "c")\<close>.
\<close>

theorem xor3_rows_follow_operand_order:
  "emit_xor3 ''b'' ''a'' ''c'' ''s'' =
     \<lparr>g_inputs = [''a'', ''b'', ''c''], g_output = ''s'',
      g_rows = [''001'', ''100'', ''010'', ''111'']\<rparr> \<and>
   emit_xor3 ''a'' ''b'' ''c'' ''s'' =
     \<lparr>g_inputs = [''a'', ''b'', ''c''], g_output = ''s'',
      g_rows = [''001'', ''010'', ''100'', ''111'']\<rparr> \<and>
   \<not> sorted (g_rows (emit_xor3 ''b'' ''a'' ''c'' ''s''))"
  by code_simp

section \<open>Idempotence of the optimizer\<close>

lemma prune_rev_idem: "prune_rev needed (prune_rev needed ops) = prune_rev needed ops"
  by (induction needed ops rule: prune_rev.induct) auto

lemma prune_rev_subset: "set (prune_rev needed ops) \<subseteq> set ops"
  by (induction needed ops rule: prune_rev.induct) auto

lemma prune_idem: "prune_fa_netlist (prune_fa_netlist ops maj) maj = prune_fa_netlist ops maj"
  by (simp add: prune_fa_netlist_def prune_rev_idem)

lemma prune_subset: "set (prune_fa_netlist ops maj) \<subseteq> set ops"
  using prune_rev_subset[of "{maj}" "rev ops"] by (simp add: prune_fa_netlist_def)

definition good_map :: "(sig \<rightharpoonup> sig) \<Rightarrow> bool" where
  "good_map cm = ((\<forall>x y. cm x = Some y \<longrightarrow> is_const y) \<and> (\<forall>x. is_const x \<longrightarrow> cm x = None))"

lemma resolve_good:
  assumes "good_map cm"
  shows "resolve cm s = Some (case cm s of None \<Rightarrow> s | Some v \<Rightarrow> v)"
proof (cases "cm s")
  case None
  then show ?thesis by (subst resolve.simps) simp
next
  case (Some v)
  then have "cm v = None" using assms by (auto simp: good_map_def)
  then have "resolve cm v = Some v" by (subst resolve.simps) simp
  then show ?thesis using Some by (subst resolve.simps) simp
qed

lemma resolve_notin: "cm s = None \<Longrightarrow> resolve cm s = Some s"
  by (subst resolve.simps) simp

lemma good_map_empty: "good_map Map.empty"
  by (simp add: good_map_def)

lemma good_map_upd: "good_map cm \<Longrightarrow> \<not> is_const s \<Longrightarrow> good_map (cm(s \<mapsto> Lit v))"
  by (auto simp: good_map_def)

definition all_const :: "fa_op \<Rightarrow> bool" where
  "all_const opn = (case opn of (a, b, cin, s, k) \<Rightarrow> is_const a \<and> is_const b \<and> is_const cin)"

definition settled :: "(sig \<rightharpoonup> sig) \<Rightarrow> fa_op \<Rightarrow> bool" where
  "settled cm opn = (case opn of (a, b, cin, s, k) \<Rightarrow>
      \<not> (is_const a \<and> is_const b \<and> is_const cin) \<and> cm a = None \<and> cm b = None \<and> cm cin = None)"

lemma resolved_cases:
  assumes "good_map cm"
  shows "is_const (case cm a of None \<Rightarrow> a | Some v \<Rightarrow> v) \<or> ((case cm a of None \<Rightarrow> a | Some v \<Rightarrow> v) = a \<and> cm a = None)"
  using assms by (auto simp: good_map_def split: option.splits)

lemma cf_loop_wf:
  assumes "good_map cm" "fan_invariant ops"
  shows "\<exists>cm' proc'. cf_loop ops cm processed = Some (cm', processed @ proc') \<and> good_map cm' \<and>
           dom cm' \<subseteq> dom cm \<union> outs ops \<and> (\<forall>opn \<in> set proc'. settled cm' opn)"
  using assms
proof (induction ops arbitrary: cm processed)
  case Nil
  then show ?case by simp
next
  case (Cons opn ops)
  obtain a b cin s k where opn: "opn = (a, b, cin, s, k)" by (cases opn) auto
  define a1 where "a1 = (case cm a of None \<Rightarrow> a | Some v \<Rightarrow> v)"
  define b1 where "b1 = (case cm b of None \<Rightarrow> b | Some v \<Rightarrow> v)"
  define c1 where "c1 = (case cm cin of None \<Rightarrow> cin | Some v \<Rightarrow> v)"
  have r: "resolve cm a = Some a1" "resolve cm b = Some b1" "resolve cm cin = Some c1"
    using resolve_good[OF Cons.prems(1)] by (simp_all add: a1_def b1_def c1_def)
  have inv: "\<not> is_const s" "\<not> is_const k" "fan_invariant ops"
    and nf: "a \<notin> {s, k} \<union> outs ops" "b \<notin> {s, k} \<union> outs ops" "cin \<notin> {s, k} \<union> outs ops"
    using Cons.prems(2) unfolding opn by auto
  show ?case
  proof (cases "is_const a1 \<and> is_const b1 \<and> is_const c1")
    case True
    define ones :: nat where "ones = of_bool (a1 = Lit True) + of_bool (b1 = Lit True) + of_bool (c1 = Lit True)"
    define cm2 where "cm2 = (cm(s \<mapsto> Lit (odd ones)))(k \<mapsto> Lit (ones \<ge> 2))"
    have g2: "good_map cm2" unfolding cm2_def
      using Cons.prems(1) inv by (intro good_map_upd)
    obtain cm' proc' where ih: "cf_loop ops cm2 processed = Some (cm', processed @ proc')"
      "good_map cm'" "dom cm' \<subseteq> dom cm2 \<union> outs ops" "\<forall>opn \<in> set proc'. settled cm' opn"
      using Cons.IH[OF g2 inv(3), of processed] by blast
    have step: "cf_loop (opn # ops) cm processed = cf_loop ops cm2 processed"
      unfolding opn cf_loop.simps r Option.bind.simps cm2_def ones_def Let_def
      using True by (simp only: if_True simp_thms)
    have "dom cm' \<subseteq> dom cm \<union> outs (opn # ops)"
      using ih(3) by (auto simp: cm2_def opn)
    then show ?thesis using ih step by auto
  next
    case False
    obtain cm' proc' where ih: "cf_loop ops cm (processed @ [(a1, b1, c1, s, k)])
         = Some (cm', (processed @ [(a1, b1, c1, s, k)]) @ proc')"
      "good_map cm'" "dom cm' \<subseteq> dom cm \<union> outs ops" "\<forall>opn \<in> set proc'. settled cm' opn"
      using Cons.IH[OF Cons.prems(1) inv(3), of "processed @ [(a1, b1, c1, s, k)]"] by blast
    have step: "cf_loop (opn # ops) cm processed = cf_loop ops cm (processed @ [(a1, b1, c1, s, k)])"
      unfolding opn cf_loop.simps r Option.bind.simps
      using False by (simp only: if_False simp_thms)
    have out: "cm' x = None" if "is_const x \<or> (x \<notin> {s, k} \<union> outs ops \<and> cm x = None)" for x
      using that ih(2,3) by (auto simp: good_map_def)
    have "cm' a1 = None" "cm' b1 = None" "cm' c1 = None"
      using resolved_cases[OF Cons.prems(1), of a] resolved_cases[OF Cons.prems(1), of b]
        resolved_cases[OF Cons.prems(1), of cin] nf out
      unfolding a1_def[symmetric] b1_def[symmetric] c1_def[symmetric] by metis+
    then have "settled cm' (a1, b1, c1, s, k)"
      using False by (simp add: settled_def)
    moreover have "dom cm' \<subseteq> dom cm \<union> outs (opn # ops)"
      using ih(3) by (auto simp: opn)
    ultimately show ?thesis using ih step
      by (intro exI[of _ cm'] exI[of _ "(a1, b1, c1, s, k) # proc'"]) auto
  qed
qed

lemma those_map_Some:
  "(\<And>x. x \<in> set xs \<Longrightarrow> f x = Some (g x)) \<Longrightarrow> those (map f xs) = Some (map g xs)"
  by (induction xs) auto

lemma resolve_op_settled:
  assumes "good_map cm" "settled cm opn"
  shows "\<exists>opn'. resolve_op cm opn = Some opn' \<and> \<not> all_const opn'"
proof -
  obtain a b cin s k where opn: "opn = (a, b, cin, s, k)" by (cases opn) auto
  have r: "resolve cm a = Some a" "resolve cm b = Some b" "resolve cm cin = Some cin"
    using assms(2) by (auto simp: settled_def opn intro: resolve_notin)
  show ?thesis
    using assms(2) resolve_good[OF assms(1), of s] resolve_good[OF assms(1), of k]
    by (simp add: opn r all_const_def settled_def)
qed

lemma cf_loop_no_const:
  assumes "\<forall>opn \<in> set ops. \<not> all_const opn"
  shows "cf_loop ops Map.empty processed = Some (Map.empty, processed @ ops)"
  using assms
proof (induction ops arbitrary: processed)
  case Nil
  then show ?case by simp
next
  case (Cons opn ops)
  obtain a b cin s k where opn: "opn = (a, b, cin, s, k)" by (cases opn) auto
  have nc: "\<not> (is_const a \<and> is_const b \<and> is_const cin)"
    using Cons.prems by (simp add: opn all_const_def)
  have r: "resolve Map.empty a = Some a" "resolve Map.empty b = Some b"
    "resolve Map.empty cin = Some cin"
    by (simp_all add: resolve_notin)
  have "cf_loop (opn # ops) Map.empty processed = cf_loop ops Map.empty (processed @ [opn])"
    unfolding opn cf_loop.simps r Option.bind.simps
    using nc by (simp only: if_False simp_thms)
  then show ?case using Cons.IH[of "processed @ [opn]"] Cons.prems by simp
qed

lemma resolve_op_empty: "resolve_op Map.empty opn = Some opn"
  by (cases opn) (simp add: resolve_notin)

lemma fold_no_const:
  assumes "\<forall>opn \<in> set ops. \<not> all_const opn"
  shows "constant_fold_and_prune ops maj = Some (prune_fa_netlist ops maj, maj)"
proof -
  have "those (map (resolve_op Map.empty) ops) = Some (map (\<lambda>x. x) ops)"
    by (rule those_map_Some) (simp add: resolve_op_empty)
  then show ?thesis
    by (simp add: constant_fold_and_prune_def cf_loop_no_const[OF assms, of "[]", simplified] resolve_notin)
qed

text \<open>
  Claim C7.  On a full-adder network (operation list satisfying the invariant above) and
  any decision signal, the optimizer returns, and applying it to its own output returns
  that output again: the same operation list and the same decision signal.
\<close>

theorem optimizer_idempotent:
  assumes "fan_invariant ops"
  shows "\<exists>ops' maj'. constant_fold_and_prune ops maj = Some (ops', maj') \<and>
           constant_fold_and_prune ops' maj' = Some (ops', maj')"
proof -
  obtain cm proc where cf: "cf_loop ops Map.empty [] = Some (cm, proc)" "good_map cm"
    "\<forall>opn \<in> set proc. settled cm opn"
    using cf_loop_wf[OF good_map_empty assms, of "[]"] by auto
  obtain maj' where m: "resolve cm maj = Some maj'"
    using resolve_good[OF cf(2)] by blast
  define g where "g = (\<lambda>opn. the (resolve_op cm opn))"
  have g: "resolve_op cm opn = Some (g opn) \<and> \<not> all_const (g opn)" if "opn \<in> set proc" for opn
    using resolve_op_settled[OF cf(2), of opn] cf(3) that by (auto simp: g_def)
  have th: "those (map (resolve_op cm) proc) = Some (map g proc)"
    by (rule those_map_Some) (simp add: g)
  have first: "constant_fold_and_prune ops maj = Some (prune_fa_netlist (map g proc) maj', maj')"
    by (simp add: constant_fold_and_prune_def cf m th)
  have "\<forall>opn \<in> set (prune_fa_netlist (map g proc) maj'). \<not> all_const opn"
    using prune_subset[of "map g proc" maj'] g by auto
  then have "constant_fold_and_prune (prune_fa_netlist (map g proc) maj') maj'
      = Some (prune_fa_netlist (prune_fa_netlist (map g proc) maj') maj', maj')"
    by (rule fold_no_const)
  then show ?thesis using first by (simp add: prune_idem)
qed

theorem optimizer_idempotent_witness:
  "fan_invariant [(X 0, Lit True, Lit False, S2 0, C2 0), (Lit True, Lit True, Lit False, S2 1, C2 1), (S2 0, S2 1, C2 1, S2 2, C2 2), (X 1, X 2, X 3, S2 3, C2 3)] \<and>
   constant_fold_and_prune [(X 0, Lit True, Lit False, S2 0, C2 0), (Lit True, Lit True, Lit False, S2 1, C2 1), (S2 0, S2 1, C2 1, S2 2, C2 2), (X 1, X 2, X 3, S2 3, C2 3)] (C2 2)
     = Some ([(X 0, Lit True, Lit False, S2 0, C2 0), (S2 0, Lit False, Lit True, S2 2, C2 2)], C2 2) \<and>
   constant_fold_and_prune [(X 0, Lit True, Lit False, S2 0, C2 0), (S2 0, Lit False, Lit True, S2 2, C2 2)] (C2 2)
     = Some ([(X 0, Lit True, Lit False, S2 0, C2 0), (S2 0, Lit False, Lit True, S2 2, C2 2)], C2 2)"
proof -
  have w: "fan_invariant [(X 0, Lit True, Lit False, S2 0, C2 0), (Lit True, Lit True, Lit False, S2 1, C2 1), (S2 0, S2 1, C2 1, S2 2, C2 2), (X 1, X 2, X 3, S2 3, C2 3)]"
    by simp
  have e: "constant_fold_and_prune [(X 0, Lit True, Lit False, S2 0, C2 0), (Lit True, Lit True, Lit False, S2 1, C2 1), (S2 0, S2 1, C2 1, S2 2, C2 2), (X 1, X 2, X 3, S2 3, C2 3)] (C2 2)
     = Some ([(X 0, Lit True, Lit False, S2 0, C2 0), (S2 0, Lit False, Lit True, S2 2, C2 2)], C2 2)"
    by code_simp
  show ?thesis
    using optimizer_idempotent [OF w, of "C2 2"] w e by simp
qed

section \<open>What a column fold computes\<close>

text \<open>
  A name is older than \<open>i\<close> when it is not an output of an adder numbered \<open>i\<close> or
  later.  \<open>bv\<close> is the value of a signal as a number, \<open>bsum\<close> the number of ones among
  a list of signals.
\<close>

fun older :: "nat \<Rightarrow> sig \<Rightarrow> bool" where
  "older i (SumW t c j) = (j < i)"
| "older i (CarW t c j) = (j < i)"
| "older i s = True"

definition bv :: "env \<Rightarrow> sig \<Rightarrow> nat" where
  "bv e s = of_bool (val e s)"

definition bsum :: "env \<Rightarrow> sig list \<Rightarrow> nat" where
  "bsum e xs = sum_list (map (bv e) xs)"

fun col_of :: "sched_op \<Rightarrow> nat" where
  "col_of (col, kd, a, b, cin, s, k) = col"

fun carry_of :: "sched_op \<Rightarrow> sig" where
  "carry_of (col, kd, a, b, cin, s, k) = k"

fun sum_of :: "sched_op \<Rightarrow> sig" where
  "sum_of (col, kd, a, b, cin, s, k) = s"

definition run_ops :: "sched_op list \<Rightarrow> env \<Rightarrow> env" where
  "run_ops ops e = run_fas (map strip_op ops) e"

lemma run_ops_Nil [simp]: "run_ops [] e = e"
  by (simp add: run_ops_def run_fas_def)

lemma run_ops_Cons [simp]: "run_ops (opn # ops) e = run_ops ops (fa_step e (strip_op opn))"
  by (simp add: run_ops_def run_fas_def)

lemma run_ops_append [simp]: "run_ops (xs @ ys) e = run_ops ys (run_ops xs e)"
  by (simp add: run_ops_def run_fas_def)

lemma older_mono: "older i x \<Longrightarrow> i \<le> j \<Longrightarrow> older j x"
  by (cases x) auto

lemma bsum_Nil [simp]: "bsum e [] = 0"
  by (simp add: bsum_def)

lemma bsum_Cons [simp]: "bsum e (x # xs) = bv e x + bsum e xs"
  by (simp add: bsum_def)

lemma bsum_append [simp]: "bsum e (xs @ ys) = bsum e xs + bsum e ys"
  by (simp add: bsum_def)

lemma bsum_cong: "(\<And>x. x \<in> set xs \<Longrightarrow> val e' x = val e x) \<Longrightarrow> bsum e' xs = bsum e xs"
  by (induction xs) (auto simp: bv_def)

lemma bv_Lit [simp]: "bv e (Lit b) = of_bool b"
  by (simp add: bv_def)


lemma fa_fresh:
  assumes "older i a" "older i b" "older i c"
  shows "bv (fa_step e (a, b, c, SumW t col i, CarW t col i)) (SumW t col i)
          + 2 * bv (fa_step e (a, b, c, SumW t col i, CarW t col i)) (CarW t col i)
         = bv e a + bv e b + bv e c"
    and "\<And>x. older i x \<Longrightarrow> val (fa_step e (a, b, c, SumW t col i, CarW t col i)) x = val e x"
proof -
  show "bv (fa_step e (a, b, c, SumW t col i, CarW t col i)) (SumW t col i)
          + 2 * bv (fa_step e (a, b, c, SumW t col i, CarW t col i)) (CarW t col i)
         = bv e a + bv e b + bv e c"
    by (auto simp: bv_def parity3_def majority3_def)
  show "\<And>x. older i x \<Longrightarrow> val (fa_step e (a, b, c, SumW t col i, CarW t col i)) x = val e x"
  proof -
    fix x assume "older i x" then show "val (fa_step e (a, b, c, SumW t col i, CarW t col i)) x = val e x"
      by (cases x) auto
  qed
qed

definition fresh_block :: "nat \<Rightarrow> nat \<Rightarrow> sched_op list \<Rightarrow> bool" where
  "fresh_block col i new = (\<forall>opn \<in> set new. col_of opn = col \<and> older (i + length new) (carry_of opn)
      \<and> older (i + length new) (sum_of opn))"

lemma fold_loop_sem:
  assumes "fold_loop col acc q cars st = (r, cars', st')"
    and "older (s_fa_id st) acc" and "\<forall>x \<in> set q. older (s_fa_id st) x"
  shows "\<exists>new. s_ops st' = s_ops st @ new \<and> s_fa_id st' = s_fa_id st + length new \<and>
           cars' = cars @ map carry_of new \<and> fresh_block col (s_fa_id st) new \<and>
           length new = (length q + 1) div 2 \<and> older (s_fa_id st') r \<and>
           (\<forall>e. (\<forall>x. older (s_fa_id st) x \<longrightarrow> val (run_ops new e) x = val e x) \<and>
                bv (run_ops new e) r + 2 * bsum (run_ops new e) (map carry_of new) = bv e acc + bsum e q)"
  using assms
proof (induction col acc q cars st arbitrary: r cars' st' rule: fold_loop.induct)
  case (1 col acc b c queue cars st)
  define i where "i = s_fa_id st"
  define s where "s = SumW Tag_none col i"
  define k where "k = CarW Tag_none col i"
  define opn where "opn = (col, Triple, acc, b, c, s, k)"
  define st0 where "st0 = st\<lparr>s_fa_id := s_fa_id st + 1, s_wires := s_wires st @ [(s, k)]\<rparr>"
  define st1 where "st1 = ops_append opn st0"
  have nw: "new_wires col Tag_none st = ((s, k), st0)"
    by (simp add: new_wires_def Let_def s_def k_def i_def st0_def)
  have st1: "s_fa_id st1 = Suc i" "s_ops st1 = s_ops st @ [opn]"
    by (simp_all add: st1_def ops_append_def st0_def i_def)
  have rec: "fold_loop col s queue (cars @ [k]) st1 = (r, cars', st')"
    using "1.prems"(1) by (simp add: nw st1_def opn_def)
  have old: "older i acc" "older i b" "older i c" "\<forall>x \<in> set queue. older i x"
    using "1.prems"(2,3) by (auto simp: i_def)
  have "older (s_fa_id st1) s" "\<forall>x \<in> set queue. older (s_fa_id st1) x"
    using old by (auto simp: st1 s_def intro: older_mono)
  from "1.IH"[OF refl nw[symmetric] refl rec[unfolded st1_def opn_def] this[unfolded st1_def opn_def]]
  obtain new where new: "s_ops st' = s_ops st1 @ new" "s_fa_id st' = s_fa_id st1 + length new"
    "cars' = (cars @ [k]) @ map carry_of new" "fresh_block col (s_fa_id st1) new"
    "length new = (length queue + 1) div 2" "older (s_fa_id st') r"
    "\<And>e. (\<forall>x. older (s_fa_id st1) x \<longrightarrow> val (run_ops new e) x = val e x) \<and>
          bv (run_ops new e) r + 2 * bsum (run_ops new e) (map carry_of new) = bv e s + bsum e queue"
    unfolding st1_def opn_def by blast
  have sem: "(\<forall>x. older i x \<longrightarrow> val (run_ops (opn # new) e) x = val e x) \<and>
       bv (run_ops (opn # new) e) r + 2 * bsum (run_ops (opn # new) e) (map carry_of (opn # new))
         = bv e acc + bsum e (b # c # queue)" for e
  proof -
    define e1 where "e1 = fa_step e (acc, b, c, s, k)"
    have f1: "bv e1 s + 2 * bv e1 k = bv e acc + bv e b + bv e c"
      and f2: "\<And>x. older i x \<Longrightarrow> val e1 x = val e x"
      unfolding e1_def s_def k_def using fa_fresh[OF old(1,2,3)] by auto
    have n1: "\<And>x. older (Suc i) x \<Longrightarrow> val (run_ops new e1) x = val e1 x"
      and n2: "bv (run_ops new e1) r + 2 * bsum (run_ops new e1) (map carry_of new) = bv e1 s + bsum e1 queue"
      using new(7)[of e1] by (auto simp: st1)
    have q: "bsum e1 queue = bsum e queue"
      using old(4) f2 by (intro bsum_cong) auto
    have kk: "bv (run_ops new e1) k = bv e1 k"
      using n1[of k] by (simp add: k_def bv_def)
    have r1: "run_ops (opn # new) e = run_ops new e1"
      by (simp add: opn_def e1_def)
    have a: "\<forall>x. older i x \<longrightarrow> val (run_ops (opn # new) e) x = val e x"
    proof (intro allI impI)
      fix x assume x: "older i x"
      then have "older (Suc i) x" by (rule older_mono) simp
      then have "val (run_ops new e1) x = val e1 x" by (rule n1)
      then show "val (run_ops (opn # new) e) x = val e x"
        using f2[OF x] by (simp only: r1)
    qed
    have "bv (run_ops (opn # new) e) r + 2 * bsum (run_ops (opn # new) e) (map carry_of (opn # new))
        = bv (run_ops new e1) r + 2 * (bv (run_ops new e1) k + bsum (run_ops new e1) (map carry_of new))"
      unfolding r1 by (simp add: opn_def)
    also have "\<dots> = bv e acc + bsum e (b # c # queue)"
      using n2 kk f1 q by simp
    finally show ?thesis using a by blast
  qed
  have fb: "fresh_block col i (opn # new)"
    using new(4) by (auto simp: fresh_block_def st1 opn_def s_def k_def)
  have ck: "carry_of opn = k" by (simp add: opn_def)
  have q1: "s_ops st' = s_ops st @ opn # new" "s_fa_id st' = s_fa_id st + length (opn # new)"
    "cars' = cars @ map carry_of (opn # new)" "length (opn # new) = (length (b # c # queue) + 1) div 2"
    using new(1,2,3,5) by (simp_all add: st1 i_def ck)
  show ?case
    apply (rule exI[of _ "opn # new"])
    using q1 new(6) sem fb unfolding i_def by blast
next
  case (2 col acc b cars st)
  define i where "i = s_fa_id st"
  define s where "s = SumW Tag_p col i"
  define k where "k = CarW Tag_p col i"
  define opn where "opn = (col, Pair, acc, b, Lit False, s, k)"
  define st0 where "st0 = st\<lparr>s_fa_id := s_fa_id st + 1, s_wires := s_wires st @ [(s, k)]\<rparr>"
  have nw: "new_wires col Tag_p st = ((s, k), st0)"
    by (simp add: new_wires_def Let_def s_def k_def i_def st0_def)
  have res: "r = s" "cars' = cars @ [k]" "st' = ops_append opn st0"
    using "2.prems"(1) by (auto simp add: nw opn_def)
  have st1: "s_fa_id st' = Suc i" "s_ops st' = s_ops st @ [opn]"
    by (simp_all add: res ops_append_def st0_def i_def)
  have old: "older i acc" "older i b" "older i (Lit False)"
    using "2.prems"(2,3) by (auto simp: i_def)
  have sem: "(\<forall>x. older i x \<longrightarrow> val (run_ops [opn] e) x = val e x) \<and>
       bv (run_ops [opn] e) r + 2 * bsum (run_ops [opn] e) (map carry_of [opn]) = bv e acc + bsum e [b]" for e
    using fa_fresh[OF old, where e=e and t=Tag_p and col=col]
    by (simp add: opn_def res s_def k_def)
  have fb: "fresh_block col i [opn]"
    by (auto simp: fresh_block_def opn_def s_def k_def)
  have q1: "s_ops st' = s_ops st @ [opn]" "s_fa_id st' = s_fa_id st + length [opn]"
    "cars' = cars @ map carry_of [opn]" "length [opn] = (length [b] + 1) div 2"
    "older (s_fa_id st') r"
    by (simp_all add: st1 i_def res(1,2) opn_def s_def)
  show ?case
    apply (rule exI[of _ "[opn]"])
    using q1 sem fb unfolding i_def by blast
next
  case (3 col acc cars st)
  then show ?case by (auto simp: fresh_block_def)
qed


lemma fold_column_sem:
  assumes "fold_column col q st = (res, cars, st')"
    and "\<forall>x \<in> set q. older (s_fa_id st) x"
  shows "\<exists>new. s_ops st' = s_ops st @ new \<and> s_fa_id st' = s_fa_id st + length new \<and>
           cars = map carry_of new \<and> fresh_block col (s_fa_id st) new \<and>
           length new = length q div 2 \<and> (q = [] \<longrightarrow> res = None) \<and>
           (q \<noteq> [] \<longrightarrow> (\<exists>r. res = Some r \<and> older (s_fa_id st') r \<and>
              (\<forall>e. bv (run_ops new e) r + 2 * bsum (run_ops new e) cars = bsum e q))) \<and>
           (\<forall>e x. older (s_fa_id st) x \<longrightarrow> val (run_ops new e) x = val e x)"
proof (cases q)
  case Nil
  then show ?thesis using assms(1) by (auto simp: fresh_block_def)
next
  case (Cons acc queue)
  obtain r where fl: "fold_loop col acc queue [] st = (r, cars, st')" and res: "res = Some r"
    using assms(1) unfolding Cons by (auto split: prod.splits)
  have "older (s_fa_id st) acc" "\<forall>x \<in> set queue. older (s_fa_id st) x"
    using assms(2) by (auto simp: Cons)
  from fold_loop_sem[OF fl this]
  obtain new where new: "s_ops st' = s_ops st @ new" "s_fa_id st' = s_fa_id st + length new"
    "cars = [] @ map carry_of new" "fresh_block col (s_fa_id st) new"
    "length new = (length queue + 1) div 2" "older (s_fa_id st') r"
    "\<And>e. (\<forall>x. older (s_fa_id st) x \<longrightarrow> val (run_ops new e) x = val e x) \<and>
          bv (run_ops new e) r + 2 * bsum (run_ops new e) (map carry_of new) = bv e acc + bsum e queue"
    by blast
  show ?thesis
    apply (rule exI[of _ new])
    using new res by (simp add: Cons)
qed

lemma stage_a_sem:
  assumes "stage_a raw sums cars st = (raw', sums', cars', st')"
    and "\<forall>x \<in> set raw. older (s_fa_id st) x"
  shows "\<exists>new. s_ops st' = s_ops st @ new \<and> s_fa_id st' = s_fa_id st + length new \<and>
           sums' = sums @ map sum_of new \<and> cars' = cars @ map carry_of new \<and>
           fresh_block 0 (s_fa_id st) new \<and> length new = length raw div 3 \<and>
           length raw' = length raw mod 3 \<and> set raw' \<subseteq> set raw \<and>
           (\<forall>e. (\<forall>x. older (s_fa_id st) x \<longrightarrow> val (run_ops new e) x = val e x) \<and>
                bsum (run_ops new e) (map sum_of new) + 2 * bsum (run_ops new e) (map carry_of new)
                  + bsum e raw' = bsum e raw)"
  using assms
proof (induction raw sums cars st arbitrary: raw' sums' cars' st' rule: stage_a.induct)
  case (1 a b c raw sums cars st)
  define i where "i = s_fa_id st"
  define s where "s = SumW Tag_raw 0 i"
  define k where "k = CarW Tag_raw 0 i"
  define opn where "opn = (0::nat, Raw_triple, a, b, c, s, k)"
  define st0 where "st0 = st\<lparr>s_fa_id := s_fa_id st + 1, s_wires := s_wires st @ [(s, k)]\<rparr>"
  define st1 where "st1 = ops_append opn st0"
  have nw: "new_wires 0 Tag_raw st = ((s, k), st0)"
    by (simp add: new_wires_def Let_def s_def k_def i_def st0_def)
  have st1: "s_fa_id st1 = Suc i" "s_ops st1 = s_ops st @ [opn]"
    by (simp_all add: st1_def ops_append_def st0_def i_def)
  have rec: "stage_a raw (sums @ [s]) (cars @ [k]) st1 = (raw', sums', cars', st')"
    using "1.prems"(1) by (simp add: nw st1_def opn_def)
  have old: "older i a" "older i b" "older i c" "\<forall>x \<in> set raw. older i x"
    using "1.prems"(2) by (auto simp: i_def)
  have "\<forall>x \<in> set raw. older (s_fa_id st1) x"
    using old by (auto simp: st1 intro: older_mono)
  from "1.IH"[OF refl nw[symmetric] refl rec[unfolded st1_def opn_def] this[unfolded st1_def opn_def]]
  obtain new where new: "s_ops st' = s_ops st1 @ new" "s_fa_id st' = s_fa_id st1 + length new"
    "sums' = (sums @ [s]) @ map sum_of new" "cars' = (cars @ [k]) @ map carry_of new"
    "fresh_block 0 (s_fa_id st1) new" "length new = length raw div 3"
    "length raw' = length raw mod 3" "set raw' \<subseteq> set raw"
    "\<And>e. (\<forall>x. older (s_fa_id st1) x \<longrightarrow> val (run_ops new e) x = val e x) \<and>
          bsum (run_ops new e) (map sum_of new) + 2 * bsum (run_ops new e) (map carry_of new)
             + bsum e raw' = bsum e raw"
    unfolding st1_def opn_def by blast
  have sem: "(\<forall>x. older i x \<longrightarrow> val (run_ops (opn # new) e) x = val e x) \<and>
       bsum (run_ops (opn # new) e) (map sum_of (opn # new))
        + 2 * bsum (run_ops (opn # new) e) (map carry_of (opn # new)) + bsum e raw'
         = bsum e (a # b # c # raw)" for e
  proof -
    define e1 where "e1 = fa_step e (a, b, c, s, k)"
    have f1: "bv e1 s + 2 * bv e1 k = bv e a + bv e b + bv e c"
      and f2: "\<And>x. older i x \<Longrightarrow> val e1 x = val e x"
      unfolding e1_def s_def k_def using fa_fresh[OF old(1,2,3)] by auto
    have n1: "\<And>x. older (Suc i) x \<Longrightarrow> val (run_ops new e1) x = val e1 x"
      and n2: "bsum (run_ops new e1) (map sum_of new) + 2 * bsum (run_ops new e1) (map carry_of new)
             + bsum e1 raw' = bsum e1 raw"
      using new(9)[of e1] by (auto simp: st1)
    have q: "bsum e1 raw = bsum e raw" "bsum e1 raw' = bsum e raw'"
      using old(4) f2 new(8) by (auto intro!: bsum_cong)
    have kk: "bv (run_ops new e1) k = bv e1 k" "bv (run_ops new e1) s = bv e1 s"
      using n1[of k] n1[of s] by (simp_all add: k_def s_def bv_def)
    have r1: "run_ops (opn # new) e = run_ops new e1"
      by (simp add: opn_def e1_def)
    have a: "\<forall>x. older i x \<longrightarrow> val (run_ops (opn # new) e) x = val e x"
    proof (intro allI impI)
      fix x assume x: "older i x"
      then have "older (Suc i) x" by (rule older_mono) simp
      then have "val (run_ops new e1) x = val e1 x" by (rule n1)
      then show "val (run_ops (opn # new) e) x = val e x"
        using f2[OF x] by (simp only: r1)
    qed
    have "bsum (run_ops (opn # new) e) (map sum_of (opn # new))
        + 2 * bsum (run_ops (opn # new) e) (map carry_of (opn # new)) + bsum e raw'
        = (bv (run_ops new e1) s + bsum (run_ops new e1) (map sum_of new))
          + 2 * (bv (run_ops new e1) k + bsum (run_ops new e1) (map carry_of new)) + bsum e raw'"
      unfolding r1 by (simp add: opn_def)
    also have "\<dots> = bsum e (a # b # c # raw)"
      using n2 kk f1 q by simp
    finally show ?thesis using a by blast
  qed
  have fb: "fresh_block 0 i (opn # new)"
    using new(5) by (auto simp: fresh_block_def st1 opn_def s_def k_def)
  have ck: "carry_of opn = k" "sum_of opn = s" by (simp_all add: opn_def)
  have q1: "s_ops st' = s_ops st @ opn # new" "s_fa_id st' = s_fa_id st + length (opn # new)"
    "sums' = sums @ map sum_of (opn # new)"
    "cars' = cars @ map carry_of (opn # new)" "length (opn # new) = length (a # b # c # raw) div 3"
    "length raw' = length (a # b # c # raw) mod 3" "set raw' \<subseteq> set (a # b # c # raw)"
    using new(1,2,3,4,6,7,8) by (auto simp add: st1 i_def ck)
  show ?case
    apply (rule exI[of _ "opn # new"])
    using q1 sem fb unfolding i_def by blast
qed (auto simp: fresh_block_def)

section \<open>Conservation of weight by the scheduler\<close>

text \<open>
  The weight \<open>2 ^ column\<close> of the tokens that a dictionary of columns holds at or above
  a column, and the weight of the residual bits.
\<close>

definition wsum :: "env \<Rightarrow> nat \<Rightarrow> (nat \<times> sig list) list \<Rightarrow> nat" where
  "wsum e cur d = sum_list (map (\<lambda>(c, q). if cur \<le> c then 2 ^ c * bsum e q else 0) d)"

definition rsum :: "env \<Rightarrow> (nat \<times> sig) list \<Rightarrow> nat" where
  "rsum e res = sum_list (map (\<lambda>(c, r). 2 ^ c * bv e r) res)"

lemma cget_distinct: "distinct (map fst d) \<Longrightarrow> (c, q) \<in> set d \<Longrightarrow> cget d c = q"
  by (simp add: cget_def)

lemma cget_notin: "c \<notin> fst ` set d \<Longrightarrow> cget d c = []"
proof -
  assume "c \<notin> fst ` set d"
  then have "map_of d c = None" by (simp add: map_of_eq_None_iff)
  then show ?thesis by (simp add: cget_def)
qed

lemma cget_Cons: "cget ((c, q) # d) j = (if j = c then q else cget d j)"
  by (simp add: cget_def)

lemma wsum_split:
  assumes "distinct (map fst d)" "cur \<le> j"
    and "\<forall>(c, q) \<in> set d. cur \<le> c \<and> c < j \<longrightarrow> q = []"
  shows "wsum e cur d = 2 ^ j * bsum e (cget d j) + wsum e (Suc j) d"
  using assms
proof (induction d)
  case Nil
  then show ?case by (simp add: wsum_def cget_def)
next
  case (Cons a d)
  obtain c q where a: "a = (c, q)" by (cases a)
  have ih: "wsum e cur d = 2 ^ j * bsum e (cget d j) + wsum e (Suc j) d"
    using Cons by auto
  show ?case
  proof (cases "c = j")
    case True
    then have "cget d j = []" using Cons.prems(1) by (intro cget_notin) (auto simp: a)
    then show ?thesis using ih Cons.prems(2) unfolding a True
      by (simp add: wsum_def cget_Cons)
  next
    case False
    have "cur \<le> c \<and> c < j \<longrightarrow> q = []" using Cons.prems(3) by (auto simp: a)
    then show ?thesis using False ih Cons.prems(2) unfolding a
      by (cases "cur \<le> c"; cases "c < j") (auto simp: wsum_def cget_Cons)
  qed
qed

lemma wsum_update:
  assumes "distinct (map fst d)" "cur \<le> k"
  shows "wsum e cur (AList.update k q d) + 2 ^ k * bsum e (cget d k) = wsum e cur d + 2 ^ k * bsum e q"
  using assms
proof (induction d)
  case Nil
  then show ?case by (simp add: wsum_def cget_def)
next
  case (Cons a d)
  obtain c p where a: "a = (c, p)" by (cases a)
  show ?case
  proof (cases "c = k")
    case True
    then show ?thesis using Cons.prems by (simp add: a wsum_def cget_Cons)
  next
    case False
    have "wsum e cur (AList.update k q d) + 2 ^ k * bsum e (cget d k) = wsum e cur d + 2 ^ k * bsum e q"
      using Cons by auto
    then show ?thesis using False by (simp add: a wsum_def cget_Cons)
  qed
qed

lemma wsum_update_low: "k < cur \<Longrightarrow> wsum e cur (AList.update k q d) = wsum e cur d"
  by (induction d) (auto simp: wsum_def)

lemma wsum_cong:
  "(\<And>c q x. (c, q) \<in> set d \<Longrightarrow> x \<in> set q \<Longrightarrow> val e' x = val e x) \<Longrightarrow> wsum e' cur d = wsum e cur d"
proof (induction d)
  case Nil
  then show ?case by (simp add: wsum_def)
next
  case (Cons a d)
  obtain c q where a: "a = (c, q)" by (cases a)
  have "bsum e' q = bsum e q" using Cons.prems[of c q] by (intro bsum_cong) (simp add: a)
  moreover have "wsum e' cur d = wsum e cur d" using Cons by auto
  ultimately show ?case by (simp add: wsum_def a)
qed

lemma wsum_empty:
  "(\<And>c q. (c, q) \<in> set d \<Longrightarrow> cur \<le> c \<Longrightarrow> q = []) \<Longrightarrow> wsum e cur d = 0"
proof (induction d)
  case Nil
  then show ?case by (simp add: wsum_def)
next
  case (Cons a d)
  obtain c q where a: "a = (c, q)" by (cases a)
  have "cur \<le> c \<Longrightarrow> q = []" using Cons.prems[of c q] by (simp add: a)
  moreover have "wsum e cur d = 0" using Cons by auto
  ultimately show ?case by (auto simp: wsum_def a)
qed

lemma rsum_update:
  "k \<notin> fst ` set res \<Longrightarrow> rsum e (AList.update k r res) = rsum e res + 2 ^ k * bv e r"
  by (induction res) (auto simp: rsum_def)

lemma rsum_cong:
  "(\<And>c r. (c, r) \<in> set res \<Longrightarrow> val e' r = val e r) \<Longrightarrow> rsum e' res = rsum e res"
proof (induction res)
  case Nil
  then show ?case by (simp add: rsum_def)
next
  case (Cons a res)
  obtain c r where a: "a = (c, r)" by (cases a)
  have "bv e' r = bv e r" using Cons.prems[of c r] by (simp add: a bv_def)
  moreover have "rsum e' res = rsum e res" using Cons by auto
  ultimately show ?case by (simp add: rsum_def a)
qed

lemma update_entries: "(c, q) \<in> set (AList.update k v d) \<Longrightarrow> (c, q) = (k, v) \<or> (c, q) \<in> set d"
  by (induction d) (auto split: if_splits)

lemma update_keys: "fst ` set (AList.update k v d) = insert k (fst ` set d)"
  using AList.dom_update[of k v d] by auto

text \<open>
  The loop invariant: dictionaries have one entry per key, residuals sit below
  \<^verbatim>\<open>current\<close>, no token is a wire that is still to be made, every key is pending, and the
  weight of the residuals plus the weight of the pending tokens is constant.
\<close>

definition sched_inv :: "env \<Rightarrow> nat \<Rightarrow> loop_state \<Rightarrow> bool" where
  "sched_inv e0 tot st =
     (distinct (map fst (col_bits st)) \<and> distinct (map fst (const_names_per_col st)) \<and>
      distinct (map fst (residual_by_col st)) \<and>
      (\<forall>c \<in> fst ` set (residual_by_col st). c < current st) \<and>
      (\<forall>(c, q) \<in> set (col_bits st). \<forall>x \<in> set q. older (s_fa_id (ws st)) x) \<and>
      (\<forall>(c, q) \<in> set (const_names_per_col st). \<forall>x \<in> set q. older 0 x) \<and>
      (\<forall>(c, r) \<in> set (residual_by_col st). older (s_fa_id (ws st)) r) \<and>
      fst ` set (col_bits st) \<subseteq> set (pending_cols st) \<and>
      fst ` set (const_names_per_col st) \<subseteq> set (pending_cols st) \<and>
      rsum (run_ops (s_ops (ws st)) e0) (residual_by_col st)
        + wsum (run_ops (s_ops (ws st)) e0) (current st) (col_bits st)
        + wsum (run_ops (s_ops (ws st)) e0) (current st) (const_names_per_col st) = tot)"

lemma sched_step_fields:
  assumes "fold_column j (cget (col_bits st) j @ cget (const_names_per_col st) j) (ws st) = (res, cars, w1)"
  shows "ws (sched_step j st) = w1"
    and "current (sched_step j st) = Suc j"
    and "residual_by_col (sched_step j st) =
           (case res of None \<Rightarrow> residual_by_col st | Some r \<Rightarrow> AList.update j r (residual_by_col st))"
    and "col_bits (sched_step j st) =
           (let cb1 = (if cars \<noteq> [] then AList.update (Suc j) (cget (col_bits st) (Suc j) @ cars) (col_bits st)
                       else col_bits st)
            in if j \<in> fst ` set cb1 then AList.update j [] cb1 else cb1)"
    and "const_names_per_col (sched_step j st) =
           (if j \<in> fst ` set (const_names_per_col st)
            then AList.update j [] (const_names_per_col st) else const_names_per_col st)"
    and "pending_cols (sched_step j st) =
           (if cars \<noteq> [] then List.insert (Suc j) (pending_cols st) else pending_cols st)"
    and "const_decl (sched_step j st) = const_decl st @ cget (const_names_per_col st) j"
  using assms by (simp_all add: sched_step_def Let_def)


lemma cget_older:
  assumes "\<And>c q x. (c, q) \<in> set d \<Longrightarrow> x \<in> set q \<Longrightarrow> older i x" and "x \<in> set (cget d j)"
  shows "older i x"
proof (cases "map_of d j")
  case None
  then show ?thesis using assms(2) by (simp add: cget_def)
next
  case (Some q)
  then have "(j, q) \<in> set d" by (rule map_of_SomeD)
  then show ?thesis using assms Some by (auto simp: cget_def)
qed

lemma cget_nonempty_key: "cget d c \<noteq> [] \<Longrightarrow> c \<in> fst ` set d"
  using cget_notin by blast

lemma sched_step_inv:
  assumes inv: "sched_inv e0 tot st" and cand: "candidates st \<noteq> []"
  shows "sched_inv e0 tot (sched_step (Min (set (candidates st))) st)"
proof -
  define j where "j = Min (set (candidates st))"
  define cb where "cb = col_bits st"
  define cn where "cn = const_names_per_col st"
  define rs where "rs = residual_by_col st"
  define cur where "cur = current st"
  define i where "i = s_fa_id (ws st)"
  define E where "E = run_ops (s_ops (ws st)) e0"
  note defs = cb_def cn_def rs_def cur_def i_def E_def
  have I: "distinct (map fst cb)" "distinct (map fst cn)" "distinct (map fst rs)"
    "\<forall>c \<in> fst ` set rs. c < cur"
    "\<forall>(c, q) \<in> set cb. \<forall>x \<in> set q. older i x"
    "\<forall>(c, q) \<in> set cn. \<forall>x \<in> set q. older 0 x"
    "\<forall>(c, r) \<in> set rs. older i r"
    "fst ` set cb \<subseteq> set (pending_cols st)" "fst ` set cn \<subseteq> set (pending_cols st)"
    "rsum E rs + wsum E cur cb + wsum E cur cn = tot"
    using inv by (simp_all add: sched_inv_def defs)
  have cb_old: "\<And>c q x. (c, q) \<in> set cb \<Longrightarrow> x \<in> set q \<Longrightarrow> older i x"
    using I(5) by fastforce
  have cn_old0: "\<And>c q x. (c, q) \<in> set cn \<Longrightarrow> x \<in> set q \<Longrightarrow> older 0 x"
    using I(6) by fastforce
  have cn_old: "\<And>c q x. (c, q) \<in> set cn \<Longrightarrow> x \<in> set q \<Longrightarrow> older i x"
    using cn_old0 older_mono[of 0 _ i] by blast
  have rs_old: "\<And>c r. (c, r) \<in> set rs \<Longrightarrow> older i r"
    using I(7) by fastforce
  have cg_cb: "older i x" if "x \<in> set (cget cb c)" for x c
    by (rule cget_older[where d=cb and j=c and i=i]) (use cb_old that in blast)+
  have cg_cn: "older i x" if "x \<in> set (cget cn c)" for x c
    by (rule cget_older[where d=cn and j=c and i=i]) (use cn_old that in blast)+
  have jin: "j \<in> set (candidates st)"
    unfolding j_def using cand by (intro Min_in) auto
  have jmin: "\<And>c. c \<in> set (candidates st) \<Longrightarrow> j \<le> c"
    unfolding j_def by (intro Min_le) auto
  have jc: "cur \<le> j" and jne: "cget cb j @ cget cn j \<noteq> []"
    using jin by (auto simp: candidates_def defs)
  have gap_cb: "\<forall>(c, q) \<in> set cb. cur \<le> c \<and> c < j \<longrightarrow> q = []"
  proof (clarify, rule ccontr)
    fix c q assume h: "(c, q) \<in> set cb" "cur \<le> c" "c < j" "q \<noteq> []"
    have "cget cb c = q" using I(1) h(1) by (rule cget_distinct)
    moreover have "c \<in> set (pending_cols st)" using I(8) h(1) by force
    ultimately have "c \<in> set (candidates st)" using h(2,4) by (simp add: candidates_def defs)
    then show False using jmin h(3) by force
  qed
  have gap_cn: "\<forall>(c, q) \<in> set cn. cur \<le> c \<and> c < j \<longrightarrow> q = []"
  proof (clarify, rule ccontr)
    fix c q assume h: "(c, q) \<in> set cn" "cur \<le> c" "c < j" "q \<noteq> []"
    have "cget cn c = q" using I(2) h(1) by (rule cget_distinct)
    moreover have "c \<in> set (pending_cols st)" using I(9) h(1) by force
    ultimately have "c \<in> set (candidates st)" using h(2,4) by (simp add: candidates_def defs)
    then show False using jmin h(3) by force
  qed
  obtain res cars w1 where fc: "fold_column j (cget cb j @ cget cn j) (ws st) = (res, cars, w1)"
    by (metis prod_cases3)
  have tok_old: "\<forall>x \<in> set (cget cb j @ cget cn j). older (s_fa_id (ws st)) x"
    using cg_cb cg_cn by (auto simp: i_def)
  from fold_column_sem[OF fc tok_old] jne
  obtain new r where new: "s_ops w1 = s_ops (ws st) @ new" "s_fa_id w1 = i + length new"
    "cars = map carry_of new" "fresh_block j i new" "res = Some r" "older (s_fa_id w1) r"
    "\<And>e. bv (run_ops new e) r + 2 * bsum (run_ops new e) cars = bsum e (cget cb j @ cget cn j)"
    "\<And>e x. older i x \<Longrightarrow> val (run_ops new e) x = val e x"
    unfolding i_def by blast
  define E' where "E' = run_ops (s_ops w1) e0"
  have E': "E' = run_ops new E" by (simp add: E'_def E_def new(1))
  have keep: "\<And>x. older i x \<Longrightarrow> val E' x = val E x"
    unfolding E' by (rule new(8))
  have i_le: "i \<le> s_fa_id w1" by (simp add: new(2))
  have cars_old: "\<forall>x \<in> set cars. older (s_fa_id w1) x"
    using new(4) by (auto simp: new(2,3) fresh_block_def)
  define cb1 where "cb1 = (if cars \<noteq> [] then AList.update (Suc j) (cget cb (Suc j) @ cars) cb else cb)"
  define cb2 where "cb2 = (if j \<in> fst ` set cb1 then AList.update j [] cb1 else cb1)"
  define cn2 where "cn2 = (if j \<in> fst ` set cn then AList.update j [] cn else cn)"
  define rs2 where "rs2 = AList.update j r rs"
  define st' where "st' = sched_step j st"
  note f = sched_step_fields[OF fc[unfolded defs]]
  have F: "ws st' = w1" "current st' = Suc j" "residual_by_col st' = rs2" "col_bits st' = cb2"
    "const_names_per_col st' = cn2"
    "pending_cols st' = (if cars \<noteq> [] then List.insert (Suc j) (pending_cols st) else pending_cols st)"
    unfolding st'_def using f
    by (simp_all add: rs2_def cb2_def cb1_def cn2_def new(5) defs Let_def)
  have d1: "distinct (map fst cb1)" unfolding cb1_def using I(1) by (simp add: distinct_update)
  have c1: "distinct (map fst cb2)" unfolding cb2_def using d1 by (simp add: distinct_update)
  have c2: "distinct (map fst cn2)" unfolding cn2_def using I(2) by (simp add: distinct_update)
  have c3: "distinct (map fst rs2)" unfolding rs2_def using I(3) by (simp add: distinct_update)
  have c4: "\<forall>c \<in> fst ` set rs2. c < Suc j"
    unfolding rs2_def update_keys using I(4) jc by auto
  have e1: "older (s_fa_id w1) x" if h: "(c, q) \<in> set cb1" "x \<in> set q" for c q x
  proof -
    have o: "\<And>c q x. (c, q) \<in> set cb \<Longrightarrow> x \<in> set q \<Longrightarrow> older (s_fa_id w1) x"
      using cb_old i_le older_mono by blast
    show "older (s_fa_id w1) x"
    proof (cases "(c, q) \<in> set cb")
      case True
      then show ?thesis using o h(2) by blast
    next
      case False
      then have "q = cget cb (Suc j) @ cars"
        using h(1) update_entries[of c q "Suc j" "cget cb (Suc j) @ cars" cb]
        by (auto simp: cb1_def split: if_splits)
      then show ?thesis
        using h(2) cars_old cg_cb[of x "Suc j"] i_le older_mono by auto
    qed
  qed
  have c5: "\<forall>(c, q) \<in> set cb2. \<forall>x \<in> set q. older (s_fa_id w1) x"
  proof (clarify)
    fix c q x assume h: "(c, q) \<in> set cb2" "x \<in> set q"
    have "(c, q) = (j, []) \<or> (c, q) \<in> set cb1"
      using h(1) update_entries[of c q j "[]" cb1] by (auto simp: cb2_def split: if_splits)
    then show "older (s_fa_id w1) x" using e1 h(2) by auto
  qed
  have c6: "\<forall>(c, q) \<in> set cn2. \<forall>x \<in> set q. older 0 x"
  proof (clarify)
    fix c q x assume h: "(c, q) \<in> set cn2" "x \<in> set q"
    have "(c, q) = (j, []) \<or> (c, q) \<in> set cn"
      using h(1) update_entries[of c q j "[]" cn] by (auto simp: cn2_def split: if_splits)
    then show "older 0 x" using cn_old0 h(2) by auto
  qed
  have c7: "\<forall>(c, r) \<in> set rs2. older (s_fa_id w1) r"
  proof (clarify)
    fix c r' assume "(c, r') \<in> set rs2"
    then have "(c, r') = (j, r) \<or> (c, r') \<in> set rs"
      unfolding rs2_def by (rule update_entries)
    then show "older (s_fa_id w1) r'"
      using new(6) rs_old older_mono[OF _ i_le] by blast
  qed
  have k1: "fst ` set cb1 = (if cars \<noteq> [] then insert (Suc j) (fst ` set cb) else fst ` set cb)"
    by (simp add: cb1_def update_keys)
  have k2: "fst ` set cb2 = fst ` set cb1"
    by (auto simp: cb2_def update_keys)
  have c8: "fst ` set cb2 \<subseteq> set (pending_cols st')"
    unfolding k2 k1 F(6) using I(8) by auto
  have k3: "fst ` set cn2 = fst ` set cn"
    by (auto simp: cn2_def update_keys)
  have c9: "fst ` set cn2 \<subseteq> set (pending_cols st')"
    unfolding k3 F(6) using I(9) by auto
  have s1: "rsum E' rs2 = rsum E rs + 2 ^ j * bv E' r"
  proof -
    have "j \<notin> fst ` set rs" using I(4) jc by auto
    then have "rsum E' rs2 = rsum E' rs + 2 ^ j * bv E' r"
      unfolding rs2_def by (rule rsum_update)
    moreover have "rsum E' rs = rsum E rs"
      using rs_old keep by (intro rsum_cong) auto
    ultimately show ?thesis by simp
  qed
  have s2: "wsum E' (Suc j) cb2 = wsum E (Suc j) cb + 2 ^ Suc j * bsum E' cars"
  proof -
    have a: "wsum E' (Suc j) cb2 = wsum E' (Suc j) cb1"
      unfolding cb2_def by (simp add: wsum_update_low)
    have b: "wsum E' (Suc j) cb1 = wsum E' (Suc j) cb + 2 ^ Suc j * bsum E' cars"
    proof (cases "cars = []")
      case True
      then show ?thesis by (simp add: cb1_def)
    next
      case False
      have "wsum E' (Suc j) (AList.update (Suc j) (cget cb (Suc j) @ cars) cb)
              + 2 ^ Suc j * bsum E' (cget cb (Suc j))
            = wsum E' (Suc j) cb + 2 ^ Suc j * bsum E' (cget cb (Suc j) @ cars)"
        using I(1) by (intro wsum_update) simp_all
      then show ?thesis using False by (simp add: cb1_def algebra_simps)
    qed
    have c: "wsum E' (Suc j) cb = wsum E (Suc j) cb"
      using cb_old keep by (intro wsum_cong) auto
    show ?thesis using a b c by simp
  qed
  have s3: "wsum E' (Suc j) cn2 = wsum E (Suc j) cn"
  proof -
    have "wsum E' (Suc j) cn2 = wsum E' (Suc j) cn"
      unfolding cn2_def by (simp add: wsum_update_low)
    moreover have "wsum E' (Suc j) cn = wsum E (Suc j) cn"
      using cn_old keep by (intro wsum_cong) auto
    ultimately show ?thesis by simp
  qed
  have s4: "wsum E cur cb = 2 ^ j * bsum E (cget cb j) + wsum E (Suc j) cb"
    using I(1) jc gap_cb by (rule wsum_split)
  have s5: "wsum E cur cn = 2 ^ j * bsum E (cget cn j) + wsum E (Suc j) cn"
    using I(2) jc gap_cn by (rule wsum_split)
  have s6: "bv E' r + 2 * bsum E' cars = bsum E (cget cb j) + bsum E (cget cn j)"
    using new(7)[of E] by (simp add: E')
  have "2 ^ j * bv E' r + 2 ^ Suc j * bsum E' cars = 2 ^ j * (bv E' r + 2 * bsum E' cars)"
    by (simp add: algebra_simps)
  also have "\<dots> = 2 ^ j * bsum E (cget cb j) + 2 ^ j * bsum E (cget cn j)"
    unfolding s6 by (simp add: algebra_simps)
  finally have s7: "2 ^ j * bv E' r + 2 ^ Suc j * bsum E' cars
      = 2 ^ j * bsum E (cget cb j) + 2 ^ j * bsum E (cget cn j)" .
  have c10: "rsum E' rs2 + wsum E' (Suc j) cb2 + wsum E' (Suc j) cn2 = tot"
    using I(10) s1 s2 s3 s4 s5 s7 by linarith
  show ?thesis
    unfolding j_def[symmetric] st'_def[symmetric] sched_inv_def F E'_def[symmetric]
    using c1 c2 c3 c4 c5 c6 c7 c8[unfolded F] c9[unfolded F] c10 by blast
qed

lemma sched_loop_inv:
  "sched_inv e0 tot st \<Longrightarrow> sched_inv e0 tot (sched_loop st) \<and> candidates (sched_loop st) = []"
proof (induction st rule: sched_loop.induct)
  case (1 st)
  show ?case
  proof (cases "candidates st = []")
    case True
    then show ?thesis using "1.prems" by (simp add: sched_loop.simps)
  next
    case False
    have "sched_inv e0 tot (sched_step (Min (set (candidates st))) st)"
      using "1.prems" False by (rule sched_step_inv)
    from "1.IH"[OF False this] show ?thesis
      using False by (subst (1 2) sched_loop.simps) simp
  qed
qed

lemma sched_final_sum:
  assumes "sched_inv e0 tot st" "candidates st = []"
  shows "rsum (run_ops (s_ops (ws st)) e0) (residual_by_col st) = tot"
proof -
  define E where "E = run_ops (s_ops (ws st)) e0"
  have e: "q = []" if "(c, q) \<in> set d" "current st \<le> c" "distinct (map fst d)"
      "fst ` set d \<subseteq> set (pending_cols st)" "d = col_bits st \<or> d = const_names_per_col st" for c q d
  proof (rule ccontr)
    assume "q \<noteq> []"
    moreover have "cget d c = q" using that(3,1) by (rule cget_distinct)
    moreover have "c \<in> set (pending_cols st)" using that(1,4) by force
    ultimately have "c \<in> set (candidates st)" using that(2,5) by (auto simp: candidates_def)
    then show False using assms(2) by simp
  qed
  have "wsum E (current st) (col_bits st) = 0"
    using assms(1) by (intro wsum_empty e) (auto simp: sched_inv_def)
  moreover have "wsum E (current st) (const_names_per_col st) = 0"
    using assms(1) by (intro wsum_empty e) (auto simp: sched_inv_def)
  ultimately show ?thesis using assms(1) by (simp add: sched_inv_def E_def)
qed

text \<open>The names that \<^verbatim>\<open>new_wires\<close> makes.\<close>

fun is_wire :: "sig \<Rightarrow> bool" where
  "is_wire (SumW t c i) = True"
| "is_wire (CarW t c i) = True"
| "is_wire s = False"

lemma older_0: "older 0 x \<longleftrightarrow> \<not> is_wire x"
  by (cases x) auto

lemma not_wire_older: "\<not> is_wire x \<Longrightarrow> older i x"
  by (cases x) auto

text \<open>The state in which \<^verbatim>\<open>csa_macro_schedule_all_columns\<close> enters its loop.\<close>

definition init_state :: "sig list \<Rightarrow> (nat \<times> sig list) list \<Rightarrow> loop_state" where
  "init_state raw_inputs cnames =
     (let w0 = \<lparr>s_fa_id = 0, s_ops = [], s_wires = []\<rparr>;
          (raw, col0_sums, c1, w1) = stage_a raw_inputs [] [] w0;
          c0 = cget cnames 0;
          col0_queue = col0_sums @ raw @ c0;
          (res0, carries_to_1, w2) = fold_column 0 col0_queue w1;
          res = (case res0 of None \<Rightarrow> [] | Some r \<Rightarrow> [(0, r)]);
          cb = [(1, c1 @ carries_to_1)]
      in \<lparr>ws = w2, col_bits = cb, const_names_per_col = cnames,
                 pending_cols = List.union (map fst cb) (map fst cnames),
                 residual_by_col = res, const_decl = c0, current = 1\<rparr>)"

lemma csa_as_loop:
  "csa_macro_schedule_all_columns raw_inputs cnames =
     (let st = sched_loop (init_state raw_inputs cnames)
      in (s_ops (ws st), s_wires (ws st), residual_by_col st, const_decl st))"
  by (simp add: csa_macro_schedule_all_columns_def init_state_def Let_def split: prod.splits)

lemma init_state_inv:
  assumes nw: "\<forall>x \<in> set raw_inputs. \<not> is_wire x"
    and cw: "\<forall>(c, q) \<in> set cnames. \<forall>x \<in> set q. \<not> is_wire x"
    and dk: "distinct (map fst cnames)"
  shows "sched_inv e (bsum e raw_inputs + wsum e 0 cnames) (init_state raw_inputs cnames)"
proof -
  define w0 where "w0 = \<lparr>s_fa_id = 0, s_ops = [], s_wires = []\<rparr>"
  obtain raw sums c1 w1 where sa: "stage_a raw_inputs [] [] w0 = (raw, sums, c1, w1)"
    by (metis prod_cases4)
  define c0 where "c0 = cget cnames 0"
  obtain res0 cars w2 where fc: "fold_column 0 (sums @ raw @ c0) w1 = (res0, cars, w2)"
    by (metis prod_cases3)
  define res where "res = (case res0 of None \<Rightarrow> [] | Some r \<Rightarrow> [(0::nat, r)])"
  have st: "init_state raw_inputs cnames =
      \<lparr>ws = w2, col_bits = [(1, c1 @ cars)], const_names_per_col = cnames,
        pending_cols = List.union [1] (map fst cnames),
        residual_by_col = res, const_decl = c0, current = 1\<rparr>"
    by (simp add: init_state_def w0_def[symmetric] sa c0_def[symmetric] fc res_def Let_def)
  have cn_old0: "\<And>c q x. (c, q) \<in> set cnames \<Longrightarrow> x \<in> set q \<Longrightarrow> older 0 x"
    using cw by (fastforce simp: older_0)
  have cn_old: "\<And>c q x i. (c, q) \<in> set cnames \<Longrightarrow> x \<in> set q \<Longrightarrow> older i x"
    using cn_old0 older_mono by blast
  have c0_old: "older i x" if "x \<in> set c0" for x i
    unfolding c0_def by (rule cget_older[where d=cnames and j=0]) (use cn_old that[unfolded c0_def] in blast)+
  have raw_old: "\<forall>x \<in> set raw_inputs. older (s_fa_id w0) x"
    using nw by (auto intro: not_wire_older)
  from stage_a_sem[OF sa raw_old]
  obtain newA where A: "s_ops w1 = newA" "s_fa_id w1 = length newA"
    "sums = map sum_of newA" "c1 = map carry_of newA" "fresh_block 0 0 newA"
    "set raw \<subseteq> set raw_inputs"
    "\<And>e. (\<forall>x. older 0 x \<longrightarrow> val (run_ops newA e) x = val e x) \<and>
       bsum (run_ops newA e) (map sum_of newA) + 2 * bsum (run_ops newA e) (map carry_of newA)
         + bsum e raw = bsum e raw_inputs"
    by (auto simp: w0_def)
  define E1 where "E1 = run_ops newA e"
  have keep1: "\<And>x. older 0 x \<Longrightarrow> val E1 x = val e x"
    using A(7)[of e] by (simp add: E1_def)
  have sumA: "bsum E1 sums + 2 * bsum E1 c1 + bsum e raw = bsum e raw_inputs"
    using A(7)[of e] by (simp add: E1_def A(3,4))
  have raw_nw: "\<And>x. x \<in> set raw \<Longrightarrow> older i x" for i
    using A(6) nw by (auto intro: not_wire_older)
  have blk_old: "\<And>x. x \<in> set sums \<or> x \<in> set c1 \<Longrightarrow> older (s_fa_id w1) x"
    using A(5) by (auto simp: A(2,3,4) fresh_block_def)
  have q_old: "\<forall>x \<in> set (sums @ raw @ c0). older (s_fa_id w1) x"
    using blk_old raw_nw c0_old by auto
  from fold_column_sem[OF fc q_old]
  obtain newB where B: "s_ops w2 = s_ops w1 @ newB" "s_fa_id w2 = s_fa_id w1 + length newB"
    "cars = map carry_of newB" "fresh_block 0 (s_fa_id w1) newB"
    "sums @ raw @ c0 = [] \<longrightarrow> res0 = None"
    "sums @ raw @ c0 \<noteq> [] \<longrightarrow> (\<exists>r. res0 = Some r \<and> older (s_fa_id w2) r \<and>
              (\<forall>e. bv (run_ops newB e) r + 2 * bsum (run_ops newB e) cars = bsum e (sums @ raw @ c0)))"
    "\<And>e x. older (s_fa_id w1) x \<Longrightarrow> val (run_ops newB e) x = val e x"
    "length newB = length (sums @ raw @ c0) div 2"
    by blast
  define E2 where "E2 = run_ops (s_ops w2) e"
  have E2: "E2 = run_ops newB E1" by (simp add: E2_def B(1) A(1) E1_def)
  have keep2: "\<And>x. older (s_fa_id w1) x \<Longrightarrow> val E2 x = val E1 x"
    unfolding E2 by (rule B(7))
  have keep02: "\<And>x. older 0 x \<Longrightarrow> val E2 x = val e x"
    using keep1 keep2 older_mono[of 0 _ "s_fa_id w1"] by simp
  have le: "s_fa_id w1 \<le> s_fa_id w2" by (simp add: B(2))
  have cars_old: "\<And>x. x \<in> set cars \<Longrightarrow> older (s_fa_id w2) x"
    using B(4) by (auto simp: B(2,3) fresh_block_def)
  have c1_old: "\<And>x. x \<in> set c1 \<Longrightarrow> older (s_fa_id w2) x"
    using blk_old older_mono[OF _ le] by blast
  have qsum: "bsum E1 (sums @ raw @ c0) = bsum E1 sums + bsum e raw + bsum e c0"
  proof -
    have "bsum E1 raw = bsum e raw" using raw_nw keep1 by (intro bsum_cong) auto
    moreover have "bsum E1 c0 = bsum e c0" using c0_old keep1 by (intro bsum_cong) auto
    ultimately show ?thesis by simp
  qed
  have rs: "rsum E2 res + 2 * bsum E2 cars = bsum E1 sums + bsum e raw + bsum e c0"
  proof (cases "sums @ raw @ c0 = []")
    case True
    then have "res0 = None" "newB = []" using B(5,8) by auto
    then show ?thesis using True by (simp add: res_def rsum_def B(3))
  next
    case False
    then obtain r where r: "res0 = Some r"
      "\<And>e. bv (run_ops newB e) r + 2 * bsum (run_ops newB e) cars = bsum e (sums @ raw @ c0)"
      using B(6) by blast
    have "bv E2 r + 2 * bsum E2 cars = bsum E1 (sums @ raw @ c0)"
      unfolding E2 by (rule r(2))
    then show ?thesis by (simp add: res_def r(1) rsum_def qsum del: bsum_append)
  qed
  have c1v: "bsum E2 c1 = bsum E1 c1"
    using blk_old keep2 by (intro bsum_cong) auto
  have w1s: "wsum E2 1 [(1, c1 @ cars)] = 2 * bsum E1 c1 + 2 * bsum E2 cars"
    by (simp add: wsum_def c1v)
  have w2s: "wsum E2 1 cnames = wsum e 1 cnames"
    using cn_old0 keep02 by (intro wsum_cong) blast
  have w3s: "wsum e 0 cnames = 2 ^ 0 * bsum e (cget cnames 0) + wsum e (Suc 0) cnames"
    using dk by (intro wsum_split) auto
  have total: "rsum E2 res + wsum E2 1 [(1, c1 @ cars)] + wsum E2 1 cnames
      = bsum e raw_inputs + wsum e 0 cnames"
    using rs w1s w2s w3s sumA by (simp add: c0_def)
  have res_keys: "\<forall>c \<in> fst ` set res. c < 1"
    by (auto simp: res_def split: option.splits)
  have res_old: "\<forall>(c, r) \<in> set res. older (s_fa_id w2) r"
    using B(5,6) by (cases "sums @ raw @ c0 = []") (auto simp: res_def)
  have cb_old: "\<forall>(c, q) \<in> set [(1::nat, c1 @ cars)]. \<forall>x \<in> set q. older (s_fa_id w2) x"
    using c1_old cars_old by auto
  have cn0: "\<forall>(c, q) \<in> set cnames. \<forall>x \<in> set q. older 0 x"
    using cw by (auto simp: older_0)
  have dres: "distinct (map fst res)"
    by (auto simp: res_def split: option.splits)
  show ?thesis
    unfolding st sched_inv_def loop_state.simps E2_def[symmetric]
    using dk dres res_keys res_old cb_old cn0 total by (auto simp add: set_union)
qed

lemma csa_schedule_sum:
  assumes run: "csa_macro_schedule_all_columns raw_inputs cnames = (ops, wires, res, cdecl)"
    and nw: "\<forall>x \<in> set raw_inputs. \<not> is_wire x"
    and cw: "\<forall>(c, q) \<in> set cnames. \<forall>x \<in> set q. \<not> is_wire x"
    and dk: "distinct (map fst cnames)"
  shows "distinct (map fst res)"
    and "rsum (run_ops ops e) res = bsum e raw_inputs + wsum e 0 cnames"
proof -
  define st where "st = sched_loop (init_state raw_inputs cnames)"
  have r: "ops = s_ops (ws st)" "res = residual_by_col st"
    using run by (simp_all add: csa_as_loop st_def Let_def)
  have inv: "sched_inv e (bsum e raw_inputs + wsum e 0 cnames) st \<and> candidates st = []" for e
    unfolding st_def by (rule sched_loop_inv, rule init_state_inv[OF nw cw dk])
  show "distinct (map fst res)"
    using inv[of e] by (simp add: sched_inv_def r)
  show "rsum (run_ops ops e) res = bsum e raw_inputs + wsum e 0 cnames"
    unfolding r using inv[of e] by (intro sched_final_sum) auto
qed

text \<open>
  Claim C6.  The scheduler is a total function.  For every list of input signals and
  every dictionary of injected constants, none of them named like a wire that
  \<^verbatim>\<open>new_wires\<close> makes, the returned \<^verbatim>\<open>residual_by_col\<close> has at most one residual per
  column, and for every assignment the sum of \<open>2 ^ column\<close> times the residual bit, read
  after the operations have run, equals the number of ones among the inputs plus the sum
  of \<open>2 ^ column\<close> times the injected constant bits.
\<close>

theorem scheduler_conservation:
  assumes "csa_macro_schedule_all_columns raw_inputs cnames = (ops, wires, res, cdecl)"
    and "\<forall>x \<in> set raw_inputs. \<not> is_wire x"
    and "\<forall>(c, q) \<in> set cnames. \<forall>x \<in> set q. \<not> is_wire x"
    and "distinct (map fst cnames)"
  shows "distinct (map fst res) \<and>
         (\<forall>e. rsum (run_fas (map strip_op ops) e) res = bsum e raw_inputs + wsum e 0 cnames)"
  using csa_schedule_sum[OF assms] by (simp add: run_ops_def)

theorem scheduler_conservation_witness:
  "csa_macro_schedule_all_columns [X 0, X 1, Lit True] [(1, [K 1])] =
     ([(0, Raw_triple, X 0, X 1, Lit True, SumW Tag_raw 0 0, CarW Tag_raw 0 0),
       (1, Pair, CarW Tag_raw 0 0, K 1, Lit False, SumW Tag_p 1 1, CarW Tag_p 1 1)],
      [(SumW Tag_raw 0 0, CarW Tag_raw 0 0), (SumW Tag_p 1 1, CarW Tag_p 1 1)],
      [(0, SumW Tag_raw 0 0), (1, SumW Tag_p 1 1), (2, CarW Tag_p 1 1)], [K 1]) \<and>
   rsum (run_fas (map strip_op
       [(0, Raw_triple, X 0, X 1, Lit True, SumW Tag_raw 0 0, CarW Tag_raw 0 0),
        (1, Pair, CarW Tag_raw 0 0, K 1, Lit False, SumW Tag_p 1 1, CarW Tag_p 1 1)])
       (\<lambda>s. s = X 0 \<or> s = K 1))
     [(0, SumW Tag_raw 0 0), (1, SumW Tag_p 1 1), (2, CarW Tag_p 1 1)] = 4"
proof -
  have run: "csa_macro_schedule_all_columns [X 0, X 1, Lit True] [(1, [K 1])] =
     ([(0, Raw_triple, X 0, X 1, Lit True, SumW Tag_raw 0 0, CarW Tag_raw 0 0),
       (1, Pair, CarW Tag_raw 0 0, K 1, Lit False, SumW Tag_p 1 1, CarW Tag_p 1 1)],
      [(SumW Tag_raw 0 0, CarW Tag_raw 0 0), (SumW Tag_p 1 1, CarW Tag_p 1 1)],
      [(0, SumW Tag_raw 0 0), (1, SumW Tag_p 1 1), (2, CarW Tag_p 1 1)], [K 1])"
    by code_simp
  have h: "\<forall>x \<in> set [X 0, X 1, Lit True]. \<not> is_wire x"
    "\<forall>(c, q) \<in> set [(1::nat, [K 1])]. \<forall>x \<in> set q. \<not> is_wire x"
    "distinct (map fst [(1::nat, [K 1])])"
    by simp_all
  show ?thesis
    using scheduler_conservation [OF run h] run
    by (simp add: bsum_def bv_def wsum_def)
qed

section \<open>The decision of the folded-bias design\<close>



text \<open>The low \<open>j\<close> bits of an integer, as a natural number.\<close>

definition lowbits :: "int \<Rightarrow> nat \<Rightarrow> nat" where
  "lowbits k j = nat (k mod 2 ^ j)"

lemma lowbits_0 [simp]: "lowbits k 0 = 0"
  by (simp add: lowbits_def)

lemma lowbits_lt: "lowbits k j < 2 ^ j"
proof -
  have "k mod 2 ^ j < 2 ^ j" by simp
  then have "nat (k mod 2 ^ j) < nat (2 ^ j)" by (intro nat_mono_iff[THEN iffD2]) simp_all
  then show ?thesis by (simp add: lowbits_def nat_power_eq)
qed





lemma clog2_pos: "2 \<le> x \<Longrightarrow> 0 < clog2 x"
  by (subst clog2.simps) simp





text \<open>
  The state of \<^verbatim>\<open>build_folded_bias_netlist\<close> is the state of the scheduler's wire
  bookkeeping, with the column dropped from each operation and the last carry of column
  \<open>w - 1\<close> remembered.
\<close>

definition alpha :: "nat \<Rightarrow> wire_state \<Rightarrow> fb_state" where
  "alpha w wst = \<lparr>fa_id = s_fa_id wst, fa_ops = map strip_op (s_ops wst),
                  last_cout_wm1 = last_k_at (int w - 1) (s_ops wst) None\<rparr>"

lemma last_k_at_append: "last_k_at c (xs @ ys) l = last_k_at c ys (last_k_at c xs l)"
  by (induction c xs l rule: last_k_at.induct) auto

lemma alpha_step:
  "fb_append (a, b, c, SumW tg col (s_fa_id wst), CarW tg col (s_fa_id wst))
      (snd (fb_new_wires w col tg (alpha w wst)))
   = alpha w (ops_append (col, kd, a, b, c, SumW tg col (s_fa_id wst), CarW tg col (s_fa_id wst))
               (snd (new_wires col tg wst)))"
  by (simp add: fb_append_def fb_new_wires_def alpha_def ops_append_def new_wires_def Let_def
        last_k_at_append)

lemma fb_new_wires_fst:
  "fst (fb_new_wires w col tg (alpha w wst)) = (SumW tg col (s_fa_id wst), CarW tg col (s_fa_id wst))"
  "fst (new_wires col tg wst) = (SumW tg col (s_fa_id wst), CarW tg col (s_fa_id wst))"
  by (simp_all add: fb_new_wires_def new_wires_def alpha_def Let_def)

lemma fb_fold_loop_alpha:
  "fb_fold_loop w col acc q cars (alpha w wst) =
     (case fold_loop col acc q cars wst of (r, cars', wst') \<Rightarrow> (r, cars', alpha w wst'))"
proof (induction col acc q cars wst rule: fold_loop.induct)
  case (1 col acc b c queue cars st)
  obtain st1 where nw: "new_wires col Tag_none st = ((SumW Tag_none col (s_fa_id st), CarW Tag_none col (s_fa_id st)), st1)"
    using fb_new_wires_fst(2)[of col Tag_none st] by (cases "new_wires col Tag_none st") auto
  obtain ft1 where fnw: "fb_new_wires w col Tag_none (alpha w st) = ((SumW Tag_none col (s_fa_id st), CarW Tag_none col (s_fa_id st)), ft1)"
    using fb_new_wires_fst(1)[of w col Tag_none st] by (cases "fb_new_wires w col Tag_none (alpha w st)") auto
  have a: "fb_append (acc, b, c, SumW Tag_none col (s_fa_id st), CarW Tag_none col (s_fa_id st)) ft1
      = alpha w (ops_append (col, Triple, acc, b, c, SumW Tag_none col (s_fa_id st), CarW Tag_none col (s_fa_id st)) st1)"
    using alpha_step[of acc b c Tag_none col st w Triple] by (simp add: nw fnw)
  show ?case
    using "1.IH"[OF nw[symmetric] refl] by (simp add: nw fnw a)
next
  case (2 col acc b cars st)
  obtain st1 where nw: "new_wires col Tag_p st = ((SumW Tag_p col (s_fa_id st), CarW Tag_p col (s_fa_id st)), st1)"
    using fb_new_wires_fst(2)[of col Tag_p st] by (cases "new_wires col Tag_p st") auto
  obtain ft1 where fnw: "fb_new_wires w col Tag_p (alpha w st) = ((SumW Tag_p col (s_fa_id st), CarW Tag_p col (s_fa_id st)), ft1)"
    using fb_new_wires_fst(1)[of w col Tag_p st] by (cases "fb_new_wires w col Tag_p (alpha w st)") auto
  have a: "fb_append (acc, b, Lit False, SumW Tag_p col (s_fa_id st), CarW Tag_p col (s_fa_id st)) ft1
      = alpha w (ops_append (col, Pair, acc, b, Lit False, SumW Tag_p col (s_fa_id st), CarW Tag_p col (s_fa_id st)) st1)"
    using alpha_step[of acc b "Lit False" Tag_p col st w Pair] by (simp add: nw fnw)
  show ?case by (simp add: nw fnw a)
next
  case (3 col acc cars st)
  show ?case by simp
qed

lemma fb_fold_column_alpha:
  "fb_fold_column w col q (alpha w wst) =
     (case fold_column col q wst of (r, cars', wst') \<Rightarrow> (r, cars', alpha w wst'))"
  by (cases q) (simp_all add: fb_fold_loop_alpha split: prod.splits)

lemma fb_stage_a_alpha:
  "fb_stage_a w raw sums cars (alpha w wst) =
     (case stage_a raw sums cars wst of (raw', sums', cars', wst') \<Rightarrow> (raw', sums', cars', alpha w wst'))"
proof (induction raw sums cars wst rule: stage_a.induct)
  case (1 a b c raw sums cars st)
  obtain st1 where nw: "new_wires 0 Tag_raw st = ((SumW Tag_raw 0 (s_fa_id st), CarW Tag_raw 0 (s_fa_id st)), st1)"
    using fb_new_wires_fst(2)[of 0 Tag_raw st] by (cases "new_wires 0 Tag_raw st") auto
  obtain ft1 where fnw: "fb_new_wires w 0 Tag_raw (alpha w st) = ((SumW Tag_raw 0 (s_fa_id st), CarW Tag_raw 0 (s_fa_id st)), ft1)"
    using fb_new_wires_fst(1)[of w 0 Tag_raw st] by (cases "fb_new_wires w 0 Tag_raw (alpha w st)") auto
  have a: "fb_append (a, b, c, SumW Tag_raw 0 (s_fa_id st), CarW Tag_raw 0 (s_fa_id st)) ft1
      = alpha w (ops_append (0, Raw_triple, a, b, c, SumW Tag_raw 0 (s_fa_id st), CarW Tag_raw 0 (s_fa_id st)) st1)"
    using alpha_step[of a b c Tag_raw 0 st w Raw_triple] by (simp add: nw fnw)
  show ?case
    using "1.IH"[OF nw[symmetric] refl] by (simp add: nw fnw a)
qed simp_all

text \<open>The column loop of \<^verbatim>\<open>build_folded_bias_netlist\<close>, on the scheduler's wire state.\<close>

definition ws_column_step ::
  "int \<Rightarrow> nat \<Rightarrow> (nat \<Rightarrow> sig list) \<times> wire_state \<Rightarrow> (nat \<Rightarrow> sig list) \<times> wire_state" where
  "ws_column_step kk j cs =
     (let (cb, st) = cs;
          qj = cb j @ (if kbit kk j then [K j] else []);
          (r, cars, st1) = fold_column j qj st
      in ((cb(j := []))(j + 1 := cb (j + 1) @ cars), st1))"

fun ws_columns ::
  "int \<Rightarrow> nat \<Rightarrow> nat \<Rightarrow> (nat \<Rightarrow> sig list) \<times> wire_state \<Rightarrow> (nat \<Rightarrow> sig list) \<times> wire_state" where
  "ws_columns kk j 0 cs = cs"
| "ws_columns kk j (Suc cnt) cs = ws_columns kk (Suc j) cnt (ws_column_step kk j cs)"

lemma fb_column_step_alpha:
  "fb_column_step w kk j (cb, alpha w wst) =
     (case ws_column_step kk j (cb, wst) of (cb', wst') \<Rightarrow> (cb', alpha w wst'))"
  by (simp add: fb_column_step_def ws_column_step_def fb_fold_column_alpha Let_def split: prod.splits)

lemma fb_columns_alpha:
  "fb_columns w kk j cnt (cb, alpha w wst) =
     (case ws_columns kk j cnt (cb, wst) of (cb', wst') \<Rightarrow> (cb', alpha w wst'))"
proof (induction cnt arbitrary: j cb wst)
  case 0
  show ?case by simp
next
  case (Suc cnt)
  obtain cb1 wst1 where s: "ws_column_step kk j (cb, wst) = (cb1, wst1)"
    by (cases "ws_column_step kk j (cb, wst)")
  show ?case using Suc[of "Suc j" cb1 wst1] by (simp add: fb_column_step_alpha s)
qed


lemma bv_K: "e (K j) \<Longrightarrow> bv e (K j) = 1"
  by (simp add: bv_def)










lemma clog2_ge2: "3 \<le> x \<Longrightarrow> 2 \<le> clog2 x"
proof -
  assume a: "3 \<le> x"
  then have "2 \<le> (x + 1) div 2" by linarith
  then have "0 < clog2 ((x + 1) div 2)" by (rule clog2_pos)
  then show ?thesis using a by (subst clog2.simps) simp
qed







lemma cget_update: "cget (AList.update k v d) c = (if c = k then v else cget d c)"
  by (simp add: cget_def update_conv')

lemma cget_fb_consts:
  "cget (fb_consts w kk) c = (if c < w \<and> kbit kk c then [K c] else [])"
proof -
  have "map_of (map (\<lambda>j. (j, [K j])) xs) c = (if c \<in> set xs then Some [K c] else None)" for xs
    by (induction xs) auto
  then show ?thesis by (auto simp: cget_def fb_consts_def)
qed

lemma fb_consts_keys: "distinct (map fst (fb_consts w kk))"
proof -
  have "map fst (fb_consts w kk) = filter (kbit kk) [0..<w]"
    by (simp add: fb_consts_def comp_def)
  then show ?thesis by simp
qed



lemma last_k_at_filter:
  "last_k_at c ops l =
     (case filter (\<lambda>opn. int (col_of opn) = c) ops of [] \<Rightarrow> l | x # xs \<Rightarrow> Some (carry_of (last (x # xs))))"
proof (induction ops arbitrary: l rule: rev_induct)
  case Nil
  then show ?case by simp
next
  case (snoc opn ops)
  obtain col kd a b cin s k where o: "opn = (col, kd, a, b, cin, s, k)"
    by (cases opn) auto
  show ?case
    using snoc[of l] by (auto simp: last_k_at_append o split: list.splits)
qed




lemma cget_Nil: "cget [] c = []"
  by (simp add: cget_def)







text \<open>
  When the double computation returns one less than the exact logarithm, the width is too
  small and the bias is negative.  With five inputs and the width 1 in place of 2, the bias
  is \<open>- 1\<close>, the constant \<open>K 0\<close> is injected, and the carry that is returned is the parity
  of the inputs: it is 1 on a single one.  For \<open>n = 2 ^ 50 + 1\<close> the double computation gives
  the width 49 where the threshold is \<open>2 ^ 49 + 1\<close>; the bias is \<open>- 1\<close> again, and every bit
  of \<open>- 1\<close> is set.
\<close>

lemma width_too_small_5:
  "fb_th 5 = 3 \<and> fb_w (\<lambda>x. 1) 5 = 1 \<and> fb_K (\<lambda>x. 1) 5 = - 1 \<and>
   build_folded_bias_netlist (\<lambda>x. 1) 5 =
     Inr ([(X 0, X 1, X 2, SumW Tag_raw 0 0, CarW Tag_raw 0 0),
           (SumW Tag_raw 0 0, X 3, X 4, SumW Tag_none 0 1, CarW Tag_none 0 1),
           (SumW Tag_none 0 1, K 0, Lit False, SumW Tag_p 0 2, CarW Tag_p 0 2)],
          [K 0], CarW Tag_p 0 2) \<and>
   val (run_fas [(X 0, X 1, X 2, SumW Tag_raw 0 0, CarW Tag_raw 0 0),
           (SumW Tag_raw 0 0, X 3, X 4, SumW Tag_none 0 1, CarW Tag_none 0 1),
           (SumW Tag_none 0 1, K 0, Lit False, SumW Tag_p 0 2, CarW Tag_p 0 2)]
          (\<lambda>s. s = X 0 \<or> s = K 0)) (CarW Tag_p 0 2) \<and>
   popcount 5 (\<lambda>s. s = X 0 \<or> s = K 0) = 1"
  by code_simp

lemma width_too_small_at_2_50:
  "fb_th (2 ^ 50 + 1) = 2 ^ 49 + 1 \<and> fb_w (\<lambda>x. 49) (2 ^ 50 + 1) = 49 \<and>
   fb_K (\<lambda>x. 49) (2 ^ 50 + 1) = - 1 \<and> (\<forall>j. kbit (- 1) j)"
proof -
  have "fb_th (2 ^ 50 + 1) = 2 ^ 49 + 1" by (simp add: fb_th_def)
  moreover have "kbit (- 1) j" for j
  proof -
    have "(- 1 :: int) div 2 ^ j = - 1" by (simp add: div_eq_minus1)
    then show ?thesis by (simp add: kbit_def)
  qed
  ultimately show ?thesis by (simp add: fb_w_def fb_K_def)
qed



section \<open>The two constructions of the folded-bias design\<close>

text \<open>
  \<^verbatim>\<open>emit_folded_bias\<close> and \<^verbatim>\<open>build_folded_bias_netlist\<close> are compared operation by operation,
  for every width \<open>w\<close> and every bias, whatever \<^verbatim>\<open>math.ceil(math.log2(th))\<close> returns.  A name
  is fresh from \<open>i\<close> when it is made by an adder numbered \<open>i\<close> or later.
\<close>

definition fresh_from :: "nat \<Rightarrow> sched_op \<Rightarrow> bool" where
  "fresh_from i opn = (\<not> older i (sum_of opn) \<and> \<not> older i (carry_of opn))"

definition made_by :: "nat \<Rightarrow> sched_op \<Rightarrow> bool" where
  "made_by i opn = (older i (sum_of opn) \<and> older i (carry_of opn))"

lemma fresh_from_mono: "fresh_from j opn \<Longrightarrow> i \<le> j \<Longrightarrow> fresh_from i opn"
  using older_mono[of i _ j] by (auto simp: fresh_from_def)

lemma made_by_mono: "made_by i opn \<Longrightarrow> i \<le> j \<Longrightarrow> made_by j opn"
  using older_mono[of i _ j] by (auto simp: made_by_def)

lemma run_ops_fresh:
  "\<forall>opn \<in> set new. fresh_from i opn \<Longrightarrow> older i x \<Longrightarrow> val (run_ops new e) x = val e x"
proof (induction new arbitrary: e)
  case Nil
  then show ?case by simp
next
  case (Cons opn new)
  obtain col kd a b c s k where opn: "opn = (col, kd, a, b, c, s, k)" by (cases opn)
  have f: "\<not> older i s" "\<not> older i k" "\<forall>opn \<in> set new. fresh_from i opn"
    using Cons.prems(1) by (auto simp: fresh_from_def opn)
  have ne: "x \<noteq> s" "x \<noteq> k" using f(1,2) Cons.prems(2) by auto
  have 1: "val (fa_step e (strip_op opn)) x = val e x"
    unfolding opn using ne by (cases x) auto
  have 2: "val (run_ops new (fa_step e (strip_op opn))) x = val (fa_step e (strip_op opn)) x"
    by (rule Cons.IH[OF f(3) Cons.prems(2)])
  show ?case by (simp only: run_ops_Cons 1 2)
qed

text \<open>The operations that a fold appends: of its column, with names made from the counter.\<close>

definition block :: "nat \<Rightarrow> wire_state \<Rightarrow> wire_state \<Rightarrow> sched_op list \<Rightarrow> bool" where
  "block col st st' new =
     (s_ops st' = s_ops st @ new \<and> s_fa_id st \<le> s_fa_id st' \<and>
      (\<forall>opn \<in> set new. col_of opn = col \<and> fresh_from (s_fa_id st) opn \<and> made_by (s_fa_id st') opn))"

lemma block_refl: "block col st st []"
  by (simp add: block_def)

lemma block_Cons:
  assumes "s_ops st1 = s_ops st @ [opn]" "s_fa_id st1 = Suc (s_fa_id st)"
    and "col_of opn = col" "fresh_from (s_fa_id st) opn" "made_by (Suc (s_fa_id st)) opn"
    and "block col st1 st' new"
  shows "block col st st' (opn # new)"
proof -
  have le: "s_fa_id st1 \<le> s_fa_id st'" and ops: "s_ops st' = s_ops st1 @ new"
    and each: "\<forall>x \<in> set new. col_of x = col \<and> fresh_from (s_fa_id st1) x \<and> made_by (s_fa_id st') x"
    using assms(6) by (simp_all add: block_def)
  have a: "made_by (s_fa_id st') opn"
    using assms(5) le unfolding assms(2)[symmetric] by (rule made_by_mono)
  have b: "\<forall>x \<in> set new. fresh_from (s_fa_id st) x"
    using each fresh_from_mono[of "s_fa_id st1" _ "s_fa_id st"] assms(2) by auto
  show ?thesis
    unfolding block_def using assms(1,2,3,4) le ops each a b by auto
qed

lemma fold_loop_block:
  "fold_loop col acc q cars st = (r, cars', st') \<Longrightarrow> \<exists>new. block col st st' new"
proof (induction col acc q cars st arbitrary: r cars' st' rule: fold_loop.induct)
  case (1 col acc b c queue cars st)
  define s where "s = SumW Tag_none col (s_fa_id st)"
  define k where "k = CarW Tag_none col (s_fa_id st)"
  define st0 where "st0 = st\<lparr>s_fa_id := s_fa_id st + 1, s_wires := s_wires st @ [(s, k)]\<rparr>"
  define opn where "opn = (col, Triple, acc, b, c, s, k)"
  have nw: "new_wires col Tag_none st = ((s, k), st0)"
    by (simp add: new_wires_def Let_def s_def k_def st0_def)
  have rec: "fold_loop col s queue (cars @ [k]) (ops_append (col, Triple, acc, b, c, s, k) st0)
      = (r, cars', st')"
    using "1.prems"(1) by (simp add: nw)
  from "1.IH"[OF refl nw[symmetric] refl rec]
  obtain new where new: "block col (ops_append opn st0) st' new" unfolding opn_def by blast
  have "block col st st' (opn # new)"
    by (rule block_Cons[OF _ _ _ _ _ new])
       (simp_all add: ops_append_def st0_def opn_def fresh_from_def made_by_def s_def k_def)
  then show ?case by blast
next
  case (2 col acc b cars st)
  define s where "s = SumW Tag_p col (s_fa_id st)"
  define k where "k = CarW Tag_p col (s_fa_id st)"
  define opn where "opn = (col, Pair, acc, b, Lit False, s, k)"
  have st': "s_ops st' = s_ops st @ [opn]" "s_fa_id st' = Suc (s_fa_id st)"
    using "2.prems" by (auto simp: new_wires_def Let_def ops_append_def opn_def s_def k_def)
  have "block col st st' [opn]"
    by (rule block_Cons[OF st' _ _ _ block_refl])
       (simp_all add: opn_def fresh_from_def made_by_def s_def k_def)
  then show ?case by blast
next
  case (3 col acc cars st)
  then show ?case using block_refl by auto
qed

lemma fold_column_block:
  "fold_column col q st = (r, cars, st') \<Longrightarrow> \<exists>new. block col st st' new"
proof (cases q)
  case Nil
  assume "fold_column col q st = (r, cars, st')"
  then show ?thesis using Nil block_refl by auto
next
  case (Cons acc queue)
  assume a: "fold_column col q st = (r, cars, st')"
  obtain r1 cars1 st1 where fl: "fold_loop col acc queue [] st = (r1, cars1, st1)"
    by (metis prod_cases3)
  then have "st1 = st'" using a by (simp add: Cons)
  then show ?thesis using fold_loop_block[OF fl] by simp
qed

lemma stage_a_block:
  "stage_a raw sums cars st = (raw', sums', cars', st') \<Longrightarrow> \<exists>new. block 0 st st' new"
proof (induction raw sums cars st arbitrary: raw' sums' cars' st' rule: stage_a.induct)
  case (1 a b c raw sums cars st)
  define s where "s = SumW Tag_raw 0 (s_fa_id st)"
  define k where "k = CarW Tag_raw 0 (s_fa_id st)"
  define st0 where "st0 = st\<lparr>s_fa_id := s_fa_id st + 1, s_wires := s_wires st @ [(s, k)]\<rparr>"
  define opn where "opn = (0::nat, Raw_triple, a, b, c, s, k)"
  have nw: "new_wires 0 Tag_raw st = ((s, k), st0)"
    by (simp add: new_wires_def Let_def s_def k_def st0_def)
  have rec: "stage_a raw (sums @ [s]) (cars @ [k]) (ops_append (0, Raw_triple, a, b, c, s, k) st0)
      = (raw', sums', cars', st')"
    using "1.prems"(1) by (simp add: nw)
  from "1.IH"[OF refl nw[symmetric] refl rec]
  obtain new where new: "block 0 (ops_append opn st0) st' new" unfolding opn_def by blast
  have "block 0 st st' (opn # new)"
    by (rule block_Cons[OF _ _ _ _ _ new])
       (simp_all add: ops_append_def st0_def opn_def fresh_from_def made_by_def s_def k_def)
  then show ?case by blast
qed (use block_refl in auto)

definition outs_made :: "wire_state \<Rightarrow> bool" where
  "outs_made st = (\<forall>opn \<in> set (s_ops st). made_by (s_fa_id st) opn)"

lemma block_outs_made: "block col st st' new \<Longrightarrow> outs_made st \<Longrightarrow> outs_made st'"
  using made_by_mono[of "s_fa_id st" _ "s_fa_id st'"] by (auto simp: block_def outs_made_def)

lemma last_k_at_other:
  "\<forall>opn \<in> set new. int (col_of opn) \<noteq> c \<Longrightarrow> last_k_at c (ops @ new) l = last_k_at c ops l"
proof -
  assume a: "\<forall>opn \<in> set new. int (col_of opn) \<noteq> c"
  have "last_k_at c new l' = l'" for l'
    using a
  proof (induction new arbitrary: l')
    case Nil
    then show ?case by simp
  next
    case (Cons opn new)
    obtain col kd a b cin s k where o: "opn = (col, kd, a, b, cin, s, k)" by (cases opn)
    show ?case using Cons by (simp add: o)
  qed
  then show ?thesis by (simp add: last_k_at_append)
qed

lemma last_k_at_mem:
  "last_k_at c ops None = Some k \<Longrightarrow> \<exists>opn \<in> set ops. carry_of opn = k"
proof -
  assume a: "last_k_at c ops None = Some k"
  define f where "f = filter (\<lambda>opn. int (col_of opn) = c) ops"
  have "f \<noteq> []" using a by (auto simp: last_k_at_filter f_def split: list.splits)
  then have "last f \<in> set f" by simp
  then have "last f \<in> set ops" by (simp add: f_def)
  moreover have "carry_of (last f) = k"
    using a by (auto simp: last_k_at_filter f_def split: list.splits)
  ultimately show ?thesis by blast
qed

text \<open>
  When every column from \<^verbatim>\<open>current\<close> up to \<open>w\<close> is empty, the rest of the loop only adds
  operations of columns \<open>w\<close> and above, with new names.
\<close>

definition gap :: "loop_state \<Rightarrow> nat \<Rightarrow> bool" where
  "gap st w = (\<forall>c. current st \<le> c \<and> c < w \<longrightarrow>
                 cget (col_bits st) c = [] \<and> cget (const_names_per_col st) c = [])"

lemma sched_tail:
  "gap st w \<Longrightarrow>
     \<exists>new. s_ops (ws (sched_loop st)) = s_ops (ws st) @ new \<and>
       (\<forall>opn \<in> set new. w \<le> col_of opn \<and> fresh_from (s_fa_id (ws st)) opn)"
proof (induction st rule: sched_loop.induct)
  case (1 st)
  show ?case
  proof (cases "candidates st = []")
    case True
    then show ?thesis by (subst sched_loop.simps) simp
  next
    case False
    define j where "j = Min (set (candidates st))"
    have jin: "j \<in> set (candidates st)" unfolding j_def using False by (intro Min_in) auto
    then have jc: "current st \<le> j"
      and jne: "cget (col_bits st) j \<noteq> [] \<or> cget (const_names_per_col st) j \<noteq> []"
      by (auto simp: candidates_def)
    have wj: "w \<le> j"
    proof (rule ccontr)
      assume "\<not> w \<le> j"
      then have "j < w" by simp
      then show False using "1.prems" jc jne by (auto simp: gap_def)
    qed
    obtain res cars w1 where fc:
      "fold_column j (cget (col_bits st) j @ cget (const_names_per_col st) j) (ws st) = (res, cars, w1)"
      by (metis prod_cases3)
    note f = sched_step_fields[OF fc]
    obtain new1 where b: "block j (ws st) w1 new1" using fold_column_block[OF fc] by blast
    have g: "gap (sched_step j st) w" using wj by (auto simp: gap_def f(2))
    from "1.IH"[OF False g[unfolded j_def]]
    obtain new2 where n2: "s_ops (ws (sched_loop (sched_step j st))) = s_ops w1 @ new2"
      "\<forall>opn \<in> set new2. w \<le> col_of opn \<and> fresh_from (s_fa_id w1) opn"
      unfolding j_def[symmetric] f(1) by blast
    have step: "sched_loop st = sched_loop (sched_step j st)"
      using False by (subst sched_loop.simps) (simp add: j_def)
    have le: "s_fa_id (ws st) \<le> s_fa_id w1" using b by (simp add: block_def)
    have a: "s_ops (ws (sched_loop st)) = s_ops (ws st) @ (new1 @ new2)"
      unfolding step n2(1) using b by (simp add: block_def)
    have c: "\<forall>opn \<in> set (new1 @ new2). w \<le> col_of opn \<and> fresh_from (s_fa_id (ws st)) opn"
      using b n2(2) wj fresh_from_mono[OF _ le] by (auto simp: block_def)
    show ?thesis using a c by blast
  qed
qed

text \<open>
  The scheduler's loop and the column loop of \<^verbatim>\<open>build_folded_bias_netlist\<close> in step: the
  wire state is the same, and so are the tokens and constants of the columns still to come.
\<close>

definition sim :: "nat \<Rightarrow> int \<Rightarrow> nat \<Rightarrow> loop_state \<Rightarrow> (nat \<Rightarrow> sig list) \<times> wire_state \<Rightarrow> bool" where
  "sim w kk j st cs =
     (case cs of (cb, wst) \<Rightarrow>
        ws st = wst \<and>
        (\<forall>c. j \<le> c \<longrightarrow> cget (col_bits st) c = cb c) \<and>
        (\<forall>c. j \<le> c \<longrightarrow> cget (const_names_per_col st) c = (if c < w \<and> kbit kk c then [K c] else [])) \<and>
        current st \<le> j \<and> gap st j \<and>
        fst ` set (col_bits st) \<subseteq> set (pending_cols st) \<and>
        fst ` set (const_names_per_col st) \<subseteq> set (pending_cols st))"

lemma sim_step:
  assumes s: "sim w kk j st (cb, wst)" and jw: "j < w"
  shows "\<exists>st'. sched_loop st = sched_loop st' \<and> sim w kk (Suc j) st' (ws_column_step kk j (cb, wst))"
proof -
  have I: "ws st = wst" "\<And>c. j \<le> c \<Longrightarrow> cget (col_bits st) c = cb c"
    "\<And>c. j \<le> c \<Longrightarrow> cget (const_names_per_col st) c = (if c < w \<and> kbit kk c then [K c] else [])"
    "current st \<le> j" "gap st j"
    "fst ` set (col_bits st) \<subseteq> set (pending_cols st)"
    "fst ` set (const_names_per_col st) \<subseteq> set (pending_cols st)"
    using s by (simp_all add: sim_def)
  define q where "q = cb j @ (if kbit kk j then [K j] else [])"
  have qs: "cget (col_bits st) j @ cget (const_names_per_col st) j = q"
    using I(2)[of j] I(3)[of j] jw by (simp add: q_def)
  obtain res cars w1 where fc: "fold_column j q wst = (res, cars, w1)"
    by (metis prod_cases3)
  have bstep: "ws_column_step kk j (cb, wst) = ((cb(j := []))(Suc j := cb (Suc j) @ cars), w1)"
    by (simp add: ws_column_step_def q_def[symmetric] fc)
  show ?thesis
  proof (cases "q = []")
    case True
    then have e: "res = None" "cars = []" "w1 = wst" using fc by simp_all
    have g: "gap st (Suc j)"
      unfolding gap_def
    proof (intro allI impI)
      fix c assume c: "current st \<le> c \<and> c < Suc j"
      show "cget (col_bits st) c = [] \<and> cget (const_names_per_col st) c = []"
      proof (cases "c = j")
        case True
        then show ?thesis using qs \<open>q = []\<close> by simp
      next
        case False
        then have "c < j" using c by simp
        then show ?thesis using I(5) c by (simp add: gap_def)
      qed
    qed
    have "sim w kk (Suc j) st (ws_column_step kk j (cb, wst))"
      unfolding bstep e sim_def prod.case
      using I(1,4,6,7) g I(2) I(3) by simp
    then show ?thesis by blast
  next
    case False
    have jp: "j \<in> set (pending_cols st)"
      using False qs I(6,7) cget_nonempty_key[of "col_bits st" j]
        cget_nonempty_key[of "const_names_per_col st" j] by auto
    have jin: "j \<in> set (candidates st)"
      using jp I(4) False qs by (auto simp: candidates_def)
    have lo: "\<forall>c \<in> set (candidates st). j \<le> c"
    proof
      fix c assume "c \<in> set (candidates st)"
      then have c: "current st \<le> c"
        "cget (col_bits st) c \<noteq> [] \<or> cget (const_names_per_col st) c \<noteq> []"
        by (auto simp: candidates_def)
      show "j \<le> c"
      proof (rule ccontr)
        assume "\<not> j \<le> c"
        then have "c < j" by simp
        then show False using I(5) c by (auto simp: gap_def)
      qed
    qed
    have mn: "Min (set (candidates st)) = j" using jin lo by (intro Min_eqI) auto
    have ne: "candidates st \<noteq> []" using jin by auto
    define st' where "st' = sched_step j st"
    have step: "sched_loop st = sched_loop st'"
      using ne mn by (subst sched_loop.simps) (simp add: st'_def)
    have fc': "fold_column j (cget (col_bits st) j @ cget (const_names_per_col st) j) (ws st)
        = (res, cars, w1)"
      unfolding qs I(1) by (rule fc)
    note f = sched_step_fields[OF fc', folded st'_def]
    define cb1 where "cb1 = (if cars \<noteq> [] then AList.update (Suc j) (cget (col_bits st) (Suc j) @ cars) (col_bits st)
                       else col_bits st)"
    have cbs: "col_bits st' = (if j \<in> fst ` set cb1 then AList.update j [] cb1 else cb1)"
      unfolding f(4) cb1_def Let_def ..
    have g1: "cget cb1 c = (if c = Suc j then cget (col_bits st) (Suc j) @ cars else cget (col_bits st) c)" for c
      by (simp add: cb1_def cget_update)
    have a: "cget (col_bits st') c = ((cb(j := []))(Suc j := cb (Suc j) @ cars)) c" if "Suc j \<le> c" for c
    proof -
      have "c \<noteq> j" "j \<le> c" "j \<le> Suc j" using that by simp_all
      then show ?thesis using I(2)[of c] I(2)[of "Suc j"] by (simp add: cbs cget_update g1)
    qed
    have b: "cget (const_names_per_col st') c = (if c < w \<and> kbit kk c then [K c] else [])"
      if "Suc j \<le> c" for c
    proof -
      have "c \<noteq> j" "j \<le> c" using that by simp_all
      then show ?thesis using I(3)[of c] by (simp add: f(5) cget_update)
    qed
    have k1: "fst ` set cb1 \<subseteq> set (pending_cols st')"
      using I(6) by (auto simp: cb1_def f(6) update_keys)
    have jk: "j \<in> fst ` set cb1 \<Longrightarrow> insert j (fst ` set cb1) = fst ` set cb1" by auto
    have k2: "fst ` set (col_bits st') \<subseteq> set (pending_cols st')"
      using k1 by (auto simp: cbs update_keys)
    have k3: "fst ` set (const_names_per_col st') \<subseteq> set (pending_cols st')"
      using I(7) by (auto simp: f(5,6) update_keys)
    have g: "gap st' (Suc j)" by (auto simp: gap_def f(2))
    have "sim w kk (Suc j) st' (ws_column_step kk j (cb, wst))"
      unfolding bstep sim_def prod.case
      using f(1,2) a b g k2 k3 by simp
    then show ?thesis using step by blast
  qed
qed

lemma sim_steps:
  "sim w kk j st cs \<Longrightarrow> j + cnt \<le> w \<Longrightarrow>
     \<exists>st'. sched_loop st = sched_loop st' \<and> sim w kk (j + cnt) st' (ws_columns kk j cnt cs)"
proof (induction cnt arbitrary: j st cs)
  case 0
  then show ?case by auto
next
  case (Suc cnt)
  obtain cb wst where cs: "cs = (cb, wst)" by (cases cs)
  have jw: "j < w" using Suc.prems(2) by simp
  from sim_step[OF Suc.prems(1)[unfolded cs] jw]
  obtain st1 where s1: "sched_loop st = sched_loop st1"
    "sim w kk (Suc j) st1 (ws_column_step kk j (cb, wst))" by blast
  have "Suc j + cnt \<le> w" using Suc.prems(2) by simp
  from Suc.IH[OF s1(2) this]
  obtain st' where "sched_loop st1 = sched_loop st'"
    "sim w kk (Suc j + cnt) st' (ws_columns kk (Suc j) cnt (ws_column_step kk j (cb, wst)))"
    by blast
  then show ?case using s1(1) by (auto simp: cs)
qed

lemma ws_columns_end:
  "ws_columns kk j (Suc cnt) cs = ws_column_step kk (j + cnt) (ws_columns kk j cnt cs)"
proof (induction cnt arbitrary: j cs)
  case 0
  show ?case by simp
next
  case (Suc cnt)
  have "ws_columns kk j (Suc (Suc cnt)) cs = ws_columns kk (Suc j) (Suc cnt) (ws_column_step kk j cs)"
    by simp
  also have "\<dots> = ws_column_step kk (Suc j + cnt) (ws_columns kk (Suc j) cnt (ws_column_step kk j cs))"
    by (rule Suc)
  finally show ?case by simp
qed

lemma ws_column_step_made:
  "outs_made (snd cs) \<Longrightarrow> outs_made (snd (ws_column_step kk j cs))"
proof -
  assume a: "outs_made (snd cs)"
  obtain cb wst where cs: "cs = (cb, wst)" by (cases cs)
  obtain res cars w1 where fc:
    "fold_column j (cb j @ (if kbit kk j then [K j] else [])) wst = (res, cars, w1)"
    by (metis prod_cases3)
  obtain new where "block j wst w1 new" using fold_column_block[OF fc] by blast
  then have "outs_made w1" using a by (auto simp: cs intro: block_outs_made)
  then show ?thesis by (simp add: ws_column_step_def cs fc)
qed

lemma ws_columns_made:
  "outs_made (snd cs) \<Longrightarrow> outs_made (snd (ws_columns kk j cnt cs))"
proof (induction cnt arbitrary: j cs)
  case 0
  then show ?case by simp
next
  case (Suc cnt)
  have "outs_made (snd (ws_column_step kk j cs))" using Suc.prems by (rule ws_column_step_made)
  then show ?case using Suc.IH by simp
qed

lemma fold_column_short:
  "length q \<le> 1 \<Longrightarrow> snd (snd (fold_column col q st)) = st"
  by (cases q) (auto simp: Suc_le_eq)

lemma fold_column_guard:
  "(if 1 \<le> length q then snd (snd (fold_column col q st)) else st) = snd (snd (fold_column col q st))"
  by (cases q) simp_all

text \<open>
  \<^verbatim>\<open>build_folded_bias_netlist\<close> for a width of at least 1, on the scheduler's wire state: the
  operations are those of columns \<open>0\<close> to \<open>w - 1\<close>.
\<close>

lemma fb_core_ws:
  assumes sa: "stage_a (map X [0..<n]) [] [] \<lparr>s_fa_id = 0, s_ops = [], s_wires = []\<rparr> = (raw, sums, c1, w1)"
    and fc0: "fold_column 0 (sums @ raw @ (if kbit kk 0 then [K 0] else [])) w1 = (r0, cars1, w2s)"
    and w: "w = fb_w lg n" and kk: "kk = fb_K lg n" and pos: "0 < w"
    and cols: "ws_columns kk 1 (w - 1) ((\<lambda>j. [])(1 := c1 @ cars1), w2s) = (cbF, wF)"
  shows "fb_core lg n = (map strip_op (s_ops wF), map K (filter (kbit kk) [0..<w]),
           (case last_k_at (int w - 1) (s_ops wF) None of Some k \<Rightarrow> k | None \<Rightarrow> Lit False))"
proof -
  define w0 where "w0 = \<lparr>s_fa_id = 0, s_ops = [], s_wires = []\<rparr>"
  define cb where "cb = (\<lambda>j::nat. ([]::sig list))(1 := c1 @ cars1)"
  have cols': "ws_columns kk 1 (w - 1) (cb, w2s) = (cbF, wF)"
    unfolding cb_def by (rule cols)
  have st0: "\<lparr>fa_id = 0, fa_ops = [], last_cout_wm1 = None\<rparr> = alpha w w0"
    by (simp add: alpha_def w0_def)
  have wne: "w \<noteq> 0" using pos by simp
  obtain cb3 w3 where c3: "ws_columns kk 1 (max 1 (w - 1) - 1) (cb, w2s) = (cb3, w3)"
    by (cases "ws_columns kk 1 (max 1 (w - 1) - 1) (cb, w2s)")
  define q where "q = cb3 (w - 1) @ (if kbit kk (w - 1) then [K (w - 1)] else [])"
  define w4 where "w4 = snd (snd (fold_column (w - 1) q w3))"
  have qe: "fold_column col q w3 = (None, [], w3)" if "\<not> Suc 0 \<le> length q" for col
    using that by (cases q) simp_all
  have core: "fb_core lg n = (fa_ops (alpha w w4), map K (filter (kbit kk) [0..<w]),
       (case last_cout_wm1 (alpha w w4) of Some k \<Rightarrow> k | None \<Rightarrow> Lit False))"
    unfolding fb_core_def w[symmetric] kk[symmetric] Let_def st0
      fb_stage_a_alpha sa[folded w0_def] prod.case fb_fold_column_alpha fc0 cb_def[symmetric]
      fb_columns_alpha c3 q_def[symmetric]
    using wne qe
    by (auto simp add: w4_def split: prod.splits)
  have "w4 = wF"
  proof (cases "w = 1")
    case True
    have "(cb3, w3) = (cb, w2s)" using c3 True by simp
    then have e: "cb3 = cb" "w3 = w2s" by simp_all
    have "length q \<le> 1" by (simp add: q_def e True cb_def)
    then have "w4 = w2s" unfolding w4_def e by (rule fold_column_short)
    moreover have "wF = w2s" using cols' True by simp
    ultimately show ?thesis by simp
  next
    case False
    then obtain d where d: "w = Suc (Suc d)" using pos by (cases w; cases "w - 1") auto
    have c3': "ws_columns kk 1 d (cb, w2s) = (cb3, w3)" using c3 by (simp add: d)
    have "ws_columns kk 1 (Suc d) (cb, w2s) = ws_column_step kk (1 + d) (cb3, w3)"
      unfolding ws_columns_end c3' ..
    then have "snd (ws_columns kk 1 (w - 1) (cb, w2s)) = w4"
      by (simp add: d ws_column_step_def w4_def q_def split: prod.splits)
    then show ?thesis using cols' by simp
  qed
  then show ?thesis unfolding core by (simp add: alpha_def)
qed

lemma core_same_decision:
  "\<exists>cnt ops_e cs maj st ops_b.
      emit_core lg n = (cnt, ops_e, cs, maj, st) \<and> fb_core lg n = (ops_b, cs, maj) \<and>
      (\<forall>e. val (run_fas (map strip_op ops_e) e) maj = val (run_fas ops_b e) maj)"
proof (cases "fb_w lg n = 0")
  case True
  obtain cnt ops_e cs maj st where em: "emit_core lg n = (cnt, ops_e, cs, maj, st)"
    by (cases "emit_core lg n") auto
  obtain ops_b cs' maj' where b: "fb_core lg n = (ops_b, cs', maj')"
    by (cases "fb_core lg n") auto
  have "maj = Lit False" "cs = []"
    using em True by (auto simp: emit_core_def Let_def split: prod.splits)
  moreover have "maj' = Lit False" "cs' = []"
    using b True by (auto simp: fb_core_def Let_def split: prod.splits)
  ultimately show ?thesis using em b by simp
next
  case False
  define w where "w = fb_w lg n"
  define kk where "kk = fb_K lg n"
  have pos: "0 < w" using False by (simp add: w_def)
  define w0 where "w0 = \<lparr>s_fa_id = 0, s_ops = [], s_wires = []\<rparr>"
  obtain raw sums c1 w1 where sa: "stage_a (map X [0..<n]) [] [] w0 = (raw, sums, c1, w1)"
    by (metis prod_cases4)
  obtain r0 cars1 w2s where fc0:
    "fold_column 0 (sums @ raw @ (if kbit kk 0 then [K 0] else [])) w1 = (r0, cars1, w2s)"
    by (metis prod_cases3)
  define cb where "cb = (\<lambda>j::nat. ([]::sig list))(1 := c1 @ cars1)"
  obtain cbF wF where cols: "ws_columns kk 1 (w - 1) (cb, w2s) = (cbF, wF)"
    by (cases "ws_columns kk 1 (w - 1) (cb, w2s)")
  define L where "L = last_k_at (int w - 1) (s_ops wF) None"
  define maj where "maj = (case L of Some k \<Rightarrow> k | None \<Rightarrow> Lit False)"
  define cs where "cs = map K (filter (kbit kk) [0..<w])"
  have b: "fb_core lg n = (map strip_op (s_ops wF), cs, maj)"
    unfolding cs_def maj_def L_def
    by (rule fb_core_ws[OF sa[unfolded w0_def] fc0 w_def kk_def pos cols[unfolded cb_def]])
  have c0: "cget (fb_consts w kk) 0 = (if kbit kk 0 then [K 0] else [])"
    using pos by (simp add: cget_fb_consts)
  define st1 where "st1 = init_state (map X [0..<n]) (fb_consts w kk)"
  have st: "st1 = \<lparr>ws = w2s, col_bits = [(1, c1 @ cars1)], const_names_per_col = fb_consts w kk,
        pending_cols = List.union [1] (map fst (fb_consts w kk)),
        residual_by_col = (case r0 of None \<Rightarrow> [] | Some r \<Rightarrow> [(0, r)]),
        const_decl = (if kbit kk 0 then [K 0] else []), current = 1\<rparr>"
    by (simp add: st1_def init_state_def w0_def[symmetric] sa c0 fc0 Let_def)
  have s1: "sim w kk 1 st1 (cb, w2s)"
    unfolding sim_def st prod.case loop_state.simps gap_def cb_def
    by (auto simp add: cget_Cons cget_Nil cget_fb_consts)
  have le: "1 + (w - 1) \<le> w" and eq: "1 + (w - 1) = w" using pos by simp_all
  from sim_steps[OF s1 le, unfolded eq cols]
  obtain st' where st': "sched_loop st1 = sched_loop st'" "sim w kk w st' (cbF, wF)"
    by blast
  have wsF: "ws st' = wF" and g: "gap st' w" using st'(2) by (simp_all add: sim_def)
  from sched_tail[OF g]
  obtain new where new: "s_ops (ws (sched_loop st1)) = s_ops wF @ new"
    "\<forall>opn \<in> set new. w \<le> col_of opn \<and> fresh_from (s_fa_id wF) opn"
    unfolding st'(1) wsF by blast
  define ops_e where "ops_e = s_ops (ws (sched_loop st1))"
  have other: "\<forall>opn \<in> set new. int (col_of opn) \<noteq> int w - 1"
    using new(2) by auto
  have Le: "last_k_at (int w - 1) ops_e None = L"
    unfolding ops_e_def new(1) L_def using other by (rule last_k_at_other)
  obtain stats where em: "emit_core lg n = (length ops_e, ops_e, cs, maj, stats)"
    unfolding emit_core_def w_def[symmetric] kk_def[symmetric] Let_def csa_as_loop
      st1_def[symmetric] prod.case ops_e_def[symmetric] Le cs_def maj_def
    using pos by simp
  have m0: "outs_made w0" by (simp add: outs_made_def w0_def)
  obtain nA where "block 0 w0 w1 nA" using stage_a_block[OF sa] by blast
  then have m1: "outs_made w1" using m0 by (rule block_outs_made)
  obtain nB where "block 0 w1 w2s nB" using fold_column_block[OF fc0] by blast
  then have m2: "outs_made w2s" using m1 by (rule block_outs_made)
  have "outs_made (snd (ws_columns kk 1 (w - 1) (cb, w2s)))"
    by (rule ws_columns_made) (simp add: m2)
  then have mF: "outs_made wF" unfolding cols by simp
  have same: "val (run_fas (map strip_op ops_e) e) maj = val (run_fas (map strip_op (s_ops wF)) e) maj"
    for e
  proof (cases L)
    case None
    then show ?thesis by (simp add: maj_def)
  next
    case (Some k)
    then obtain opn where "opn \<in> set (s_ops wF)" "carry_of opn = k"
      using last_k_at_mem[of "int w - 1" "s_ops wF" k] by (auto simp: L_def)
    then have old: "older (s_fa_id wF) k" using mF by (auto simp: outs_made_def made_by_def)
    have fr: "\<forall>opn \<in> set new. fresh_from (s_fa_id wF) opn" using new(2) by simp
    have "val (run_ops new (run_ops (s_ops wF) e)) k = val (run_ops (s_ops wF) e) k"
      using fr old by (rule run_ops_fresh)
    then have "val (run_ops (s_ops wF @ new) e) k = val (run_ops (s_ops wF) e) k"
      by (simp only: run_ops_append)
    then show ?thesis
      unfolding maj_def Some option.case ops_e_def new(1) run_ops_def .
  qed
  show ?thesis using em b same by blast
qed

text \<open>
  Claim C9.  For every odd \<open>n \<ge> 3\<close> and every value of \<^verbatim>\<open>math.ceil(math.log2(th))\<close>, the two
  constructions return the same list of bias constants and the same decision signal: the
  operations of \<^verbatim>\<open>build_folded_bias_netlist\<close> are those that \<^verbatim>\<open>emit_folded_bias\<close> makes for the
  columns \<open>0\<close> to \<open>w - 1\<close>, and the operations that \<^verbatim>\<open>emit_folded_bias\<close> adds for the columns
  from \<open>w\<close> on write new names only.  So the decision signal has the same value in both
  networks under every assignment.
\<close>

theorem emit_build_same_decision:
  assumes "n mod 2 = 1" and "3 \<le> n"
  shows "\<exists>cnt ops_e cs maj_e st ops_b maj_b.
           emit_folded_bias lg n = Inr (cnt, ops_e, cs, maj_e, st) \<and>
           build_folded_bias_netlist lg n = Inr (ops_b, cs, maj_b) \<and>
           (\<forall>e. val (run_fas (map strip_op ops_e) e) maj_e = val (run_fas ops_b e) maj_b)"
proof -
  from core_same_decision[of lg "nat n"]
  obtain cnt ops_e cs maj st ops_b where
    c: "emit_core lg (nat n) = (cnt, ops_e, cs, maj, st)" "fb_core lg (nat n) = (ops_b, cs, maj)"
      "\<forall>e. val (run_fas (map strip_op ops_e) e) maj = val (run_fas ops_b e) maj"
    by blast
  have "emit_folded_bias lg n = Inr (cnt, ops_e, cs, maj, st)"
    using assms c(1) by (simp add: emit_folded_bias_def)
  moreover have "build_folded_bias_netlist lg n = Inr (ops_b, cs, maj)"
    using assms c(2) by (simp add: build_folded_bias_netlist_def)
  ultimately show ?thesis using c(3) by (intro exI conjI)
qed

theorem emit_build_same_decision_witness:
  "(5::int) mod 2 = 1 \<and> (3::int) \<le> 5 \<and>
   val (run_fas (map strip_op
          [(0, Raw_triple, X 0, X 1, X 2, SumW Tag_raw 0 0, CarW Tag_raw 0 0),
           (0, Triple, SumW Tag_raw 0 0, X 3, X 4, SumW Tag_none 0 1, CarW Tag_none 0 1),
           (0, Pair, SumW Tag_none 0 1, K 0, Lit False, SumW Tag_p 0 2, CarW Tag_p 0 2),
           (1, Triple, CarW Tag_raw 0 0, CarW Tag_none 0 1, CarW Tag_p 0 2, SumW Tag_none 1 3,
            CarW Tag_none 1 3)]) (\<lambda>s. s = X 1 \<or> s = X 3 \<or> s = K 0))
       (CarW Tag_none 1 3) =
   val (run_fas [(X 0, X 1, X 2, SumW Tag_raw 0 0, CarW Tag_raw 0 0),
           (SumW Tag_raw 0 0, X 3, X 4, SumW Tag_none 0 1, CarW Tag_none 0 1),
           (SumW Tag_none 0 1, K 0, Lit False, SumW Tag_p 0 2, CarW Tag_p 0 2),
           (CarW Tag_raw 0 0, CarW Tag_none 0 1, CarW Tag_p 0 2, SumW Tag_none 1 3,
            CarW Tag_none 1 3)] (\<lambda>s. s = X 1 \<or> s = X 3 \<or> s = K 0))
       (CarW Tag_none 1 3)"
proof -
  let ?opsb = "[(X 0, X 1, X 2, SumW Tag_raw 0 0, CarW Tag_raw 0 0),
           (SumW Tag_raw 0 0, X 3, X 4, SumW Tag_none 0 1, CarW Tag_none 0 1),
           (SumW Tag_none 0 1, K 0, Lit False, SumW Tag_p 0 2, CarW Tag_p 0 2),
           (CarW Tag_raw 0 0, CarW Tag_none 0 1, CarW Tag_p 0 2, SumW Tag_none 1 3,
            CarW Tag_none 1 3)]"
  let ?opse = "[(0, Raw_triple, X 0, X 1, X 2, SumW Tag_raw 0 0, CarW Tag_raw 0 0),
           (0, Triple, SumW Tag_raw 0 0, X 3, X 4, SumW Tag_none 0 1, CarW Tag_none 0 1),
           (0, Pair, SumW Tag_none 0 1, K 0, Lit False, SumW Tag_p 0 2, CarW Tag_p 0 2),
           (1::nat, Triple, CarW Tag_raw 0 0, CarW Tag_none 0 1, CarW Tag_p 0 2, SumW Tag_none 1 3,
            CarW Tag_none 1 3)]"
  let ?e = "\<lambda>s. s = X 1 \<or> s = X 3 \<or> s = K 0"
  let ?st = "\<lparr>threshold = 3, w_bits = 2, bias_K = 1, K_bits_set = [0], fa_count = 4,
              maj_signal = CarW Tag_none 1 3\<rparr>"
  have b: "build_folded_bias_netlist clog2 5 = Inr (?opsb, [K 0], CarW Tag_none 1 3)"
    by code_simp
  have em: "emit_folded_bias clog2 5 = Inr (4, ?opse, [K 0], CarW Tag_none 1 3, ?st)"
    by code_simp
  have h: "(5::int) mod 2 = 1" "(3::int) \<le> 5" by simp_all
  from emit_build_same_decision [of 5 clog2, OF h]
  obtain cnt ops_e cs maj_e st ops_b maj_b where
    1: "emit_folded_bias clog2 5 = Inr (cnt, ops_e, cs, maj_e, st)" and
    2: "build_folded_bias_netlist clog2 5 = Inr (ops_b, cs, maj_b)" and
    3: "\<forall>e. val (run_fas (map strip_op ops_e) e) maj_e = val (run_fas ops_b e) maj_b"
    by (elim exE conjE)
  have "Inr (ops_b, cs, maj_b) = (Inr (?opsb, [K 0], CarW Tag_none 1 3) :: error + _)"
    using 2 b by (rule trans[OF sym])
  then have 4: "ops_b = ?opsb" "cs = [K 0]" "maj_b = CarW Tag_none 1 3"
    by (simp_all only: sum.inject prod.inject)
  have "Inr (cnt, ops_e, cs, maj_e, st) = (Inr (4, ?opse, [K 0], CarW Tag_none 1 3, ?st) :: error + _)"
    using 1 em by (rule trans[OF sym])
  then have 5: "ops_e = ?opse" "maj_e = CarW Tag_none 1 3"
    by (simp_all only: sum.inject prod.inject)
  have "val (run_fas (map strip_op ?opse) ?e) (CarW Tag_none 1 3) =
        val (run_fas ?opsb ?e) (CarW Tag_none 1 3)"
    using 3[unfolded 4 5, THEN spec, of ?e] .
  then show ?thesis using h by (simp only: simp_thms)
qed

section \<open>The decision of the baseline strict design\<close>

subsection \<open>Where the scheduler's tokens come from\<close>

text \<open>
  Every operation that the scheduler appends writes two names made by \<^verbatim>\<open>new_wires\<close>, and
  every token and residual is such a name or one of the names the scheduler was given.
\<close>

definition wires_only :: "sched_op list \<Rightarrow> bool" where
  "wires_only ops = (\<forall>opn \<in> set ops. is_wire (sum_of opn) \<and> is_wire (carry_of opn))"

lemma wires_only_Nil [simp]: "wires_only []"
  by (simp add: wires_only_def)













subsection \<open>The ripple comparator\<close>


















end
